theory Spec2Isabelle
  imports Main "HOL-Library.Word" "HOL-Library.Sublist"
begin

section \<open>The HTTP streaming input (CurlInputPlugin.cxx)\<close>

text \<open>
  A shallow embedding of \<^verbatim>\<open>src/input/CurlInputPlugin.cxx\<close>.

  Integer types.  \<^verbatim>\<open>size_t\<close> values are lengths of byte regions that exist in memory
  (chunk sizes, read lengths, positions inside a header line); they are modelled as
  \<open>nat\<close>.  \<^verbatim>\<open>goffset\<close> (\<^verbatim>\<open>gint64\<close>) is a \<open>64 word\<close> read as two's complement,
  \<^verbatim>\<open>long\<close> is taken as the 64-bit \<^verbatim>\<open>long\<close> of the LP64 ABI (Linux x86-64), and
  \<^verbatim>\<open>gint\<close> is a \<open>32 word\<close>.  Bytes (\<^verbatim>\<open>char\<close>, \<^verbatim>\<open>uint8_t\<close>) are \<open>char\<close>.
\<close>

type_synonym goffset = "64 word"
type_synonym long = "64 word"

subsection \<open>The socket bridge: \<^verbatim>\<open>CurlSockets\<close>\<close>




subsection \<open>Outcomes that are not ordinary returns\<close>

text \<open>
  An \<^verbatim>\<open>assert\<close> that fails aborts the process, and a store past the end of a fixed-size
  stack array is undefined behaviour.  Both are values of the model: a function that can
  reach one of them returns \<open>failure + 'a\<close>, with \<open>Inl\<close> for the failure.  Assertions on
  the identity of the running thread (\<^verbatim>\<open>io_thread_inside()\<close>) and on the mutex and condition
  pointers are outside the model.

  A call that sleeps in \<^verbatim>\<open>g_cond_wait\<close> is \<open>Waiting\<close>: the mutex is released there, the I/O
  thread runs, and the call goes on from the loop that tests the wait condition.
\<close>

datatype failure = AssertionFailed | OutOfBounds

datatype 'a blocking = Waiting | Done 'a

subsection \<open>Library functions the plugin calls\<close>

text \<open>
  C strings.  A \<open>string\<close> holds the bytes of a buffer; read as a C string it ends at its
  first NUL byte, or at its end.
\<close>

definition c_str :: "string \<Rightarrow> string" where
  "c_str s = takeWhile (\<lambda>ch. ch \<noteq> CHR 0x00) s"

text \<open>\<^verbatim>\<open>strncmp(s1, s2, n)\<close>: the end of a list stands for the terminating NUL.\<close>

fun strncmp :: "string \<Rightarrow> string \<Rightarrow> nat \<Rightarrow> int" where
  "strncmp s1 s2 0 = 0"
| "strncmp [] [] (Suc n) = 0"
| "strncmp (a # s1) [] (Suc n) = int (of_char a)"
| "strncmp [] (b # s2) (Suc n) = - int (of_char b)"
| "strncmp (a # s1) (b # s2) (Suc n) =
     (if a \<noteq> b then int (of_char a) - int (of_char b)
      else if a = CHR 0x00 then 0
      else strncmp s1 s2 n)"

text \<open>\<^verbatim>\<open>memchr(s, ch, n)\<close> on the bytes \<open>s\<close> (\<open>n\<close> is their number): the position of the first \<open>ch\<close>.\<close>

definition memchr :: "string \<Rightarrow> char \<Rightarrow> nat option" where
  "memchr s ch = (if ch \<in> set s then Some (length (takeWhile (\<lambda>x. x \<noteq> ch) s)) else None)"

text \<open>
  GLib: \<^verbatim>\<open>g_ascii_isspace\<close>, \<^verbatim>\<open>g_ascii_tolower\<close>, \<^verbatim>\<open>g_ascii_strcasecmp\<close>.  The white space of
  \<^verbatim>\<open>g_ascii_isspace\<close> is the space, TAB, LF, FF and CR; the vertical tab is not among it.
\<close>

definition g_ascii_isspace :: "char \<Rightarrow> bool" where
  "g_ascii_isspace ch =
     (ch = CHR '' '' \<or> ch = CHR 0x09 \<or> ch = CHR 0x0A \<or> ch = CHR 0x0C \<or> ch = CHR 0x0D)"

definition g_ascii_tolower :: "char \<Rightarrow> char" where
  "g_ascii_tolower ch =
     (let n = (of_char ch :: nat) in if 65 \<le> n \<and> n \<le> 90 then char_of (n + 32) else ch)"

fun g_ascii_strcasecmp :: "string \<Rightarrow> string \<Rightarrow> int" where
  "g_ascii_strcasecmp [] [] = 0"
| "g_ascii_strcasecmp (a # s1) [] = int (of_char a)"
| "g_ascii_strcasecmp [] (b # s2) = - int (of_char b)"
| "g_ascii_strcasecmp (a # s1) (b # s2) =
     (let c1 = g_ascii_tolower a; c2 = g_ascii_tolower b
      in if c1 \<noteq> c2 then int (of_char c1) - int (of_char c2)
         else g_ascii_strcasecmp s1 s2)"

text \<open>
  \<^verbatim>\<open>g_ascii_strtoull(s, NULL, 10)\<close>: leading white space, an optional sign, then decimal
  digits; a value that does not fit is \<^verbatim>\<open>G_MAXUINT64\<close>; a minus sign negates the
  \<^verbatim>\<open>guint64\<close>.  No digits give 0.  The white space that it skips is that of its own
  macro \<^verbatim>\<open>ISSPACE\<close>, which has the vertical tab as well.
\<close>

definition ISSPACE :: "char \<Rightarrow> bool" where
  "ISSPACE ch =
     (ch = CHR '' '' \<or> ch = CHR 0x0C \<or> ch = CHR 0x0A \<or> ch = CHR 0x0D \<or> ch = CHR 0x09
      \<or> ch = CHR 0x0B)"

definition is_digit :: "char \<Rightarrow> bool" where
  "is_digit ch = (48 \<le> (of_char ch :: nat) \<and> (of_char ch :: nat) \<le> 57)"

definition digit_value :: "char \<Rightarrow> nat" where
  "digit_value ch = of_char ch - 48"

definition decimal_value :: "string \<Rightarrow> nat" where
  "decimal_value ds = foldl (\<lambda>acc ch. acc * 10 + digit_value ch) 0 ds"

definition g_ascii_strtoull :: "string \<Rightarrow> 64 word" where
  "g_ascii_strtoull s =
     (let s1 = dropWhile ISSPACE (c_str s);
          negative = (s1 \<noteq> [] \<and> hd s1 = CHR ''-'');
          s2 = (if s1 \<noteq> [] \<and> (hd s1 = CHR ''-'' \<or> hd s1 = CHR ''+'') then tl s1 else s1);
          v = decimal_value (takeWhile is_digit s2);
          result = (if v < 2 ^ 64 then word_of_nat v else - 1)
      in if negative then - result else result)"

text \<open>\<^verbatim>\<open>g_strndup(s, n)\<close>: at most \<open>n\<close> bytes of \<open>s\<close>, up to its first NUL.\<close>

definition g_strndup :: "string \<Rightarrow> nat \<Rightarrow> string" where
  "g_strndup s n = c_str (take n s)"

text \<open>The \<^verbatim>\<open>printf\<close> conversions \<^verbatim>\<open>%lld\<close> and \<^verbatim>\<open>%ld\<close> of a signed 64-bit value.\<close>

fun decimal :: "nat \<Rightarrow> string" where
  "decimal n = (if n < 10 then [char_of (48 + n)]
                else decimal (n div 10) @ [char_of (48 + n mod 10)])"

definition printf_lld :: "64 word \<Rightarrow> string" where
  "printf_lld x = (if x <s 0 then CHR ''-'' # decimal (nat (- sint x)) else decimal (nat (sint x)))"

text \<open>
  \<^verbatim>\<open>memcpy(buf, src, n); buf[n] = 0;\<close> for a stack array \<^verbatim>\<open>char buf[cap]\<close>, with \<open>src\<close> the
  bytes at the source: the stores stay inside the array exactly when \<open>n < cap\<close>, and the
  array then reads as the C string of the \<open>n\<close> bytes.
\<close>

definition memcpy_terminated :: "nat \<Rightarrow> string \<Rightarrow> nat \<Rightarrow> failure + string" where
  "memcpy_terminated cap src n = (if n < cap then Inr (c_str (take n src)) else Inl OutOfBounds)"

text \<open>
  The difference \<open>p - q\<close> of two positions in the same buffer, as the \<^verbatim>\<open>size_t\<close> that
  \<^verbatim>\<open>memcpy\<close> and \<^verbatim>\<open>g_strndup\<close> receive: a negative difference wraps around.
\<close>

definition size_t_diff :: "nat \<Rightarrow> nat \<Rightarrow> nat" where
  "size_t_diff p q = (if q \<le> p then p - q else 2 ^ 64 - (q - p))"

declare decimal.simps [simp del]

subsection \<open>Tags\<close>

text \<open>
  Modelled from the spec: \<^verbatim>\<open>struct tag\<close> and its functions (\<^verbatim>\<open>tag.h\<close> is not among the
  sources).  The spec treats a tag as an opaque value carrying typed items; the plugin
  uses the name item and the parser the title item.
\<close>

datatype tag_type = TAG_NAME | TAG_TITLE

type_synonym tag = "(tag_type \<times> string) list"

text \<open>Modelled from the spec: a fresh tag carries no item.\<close>

definition tag_new :: tag where
  "tag_new = []"

text \<open>Modelled from the spec: adding an item to a tag.\<close>

definition tag_add_item :: "tag \<Rightarrow> tag_type \<Rightarrow> string \<Rightarrow> tag" where
  "tag_add_item t ty v = t @ [(ty, v)]"

text \<open>Modelled from the spec: whether a tag carries an item of a type.\<close>

definition tag_has_type :: "tag \<Rightarrow> tag_type \<Rightarrow> bool" where
  "tag_has_type t ty = (ty \<in> fst ` set t)"

subsection \<open>The ICY metadata parser\<close>

text \<open>
  Modelled from the spec: \<^verbatim>\<open>IcyMetaDataParser\<close> (\<^verbatim>\<open>IcyMetaDataParser.hxx\<close> is included
  by the plugin but is not among the sources).  Section 4.1 of the spec: after
  \<open>Start stride\<close> the bytes arrive as \<open>stride\<close> audio bytes, one length byte \<open>L\<close>, then
  \<open>16 * L\<close> metadata bytes, repeating; the state machine is \<open>{InRun, InLength, InMeta}\<close>,
  initially \<open>InRun\<close> with counter \<open>stride\<close>.  A parser that was never started is inactive
  (\<open>stride = 0\<close>) and every byte is audio.
\<close>

datatype icy_mode = InRun nat | InLength | InMeta nat

text \<open>
  Modelled from the spec: the parser state (stride, position within the stride, pending
  tag text) and the tag that the parser has emitted and the consumer has not claimed yet.
\<close>

record IcyMetaDataParser =
  stride :: nat
  mode :: icy_mode
  meta_text :: string
  parsed_tag :: "tag option"

text \<open>Modelled from the spec: the parser of a new stream is inactive.\<close>

definition IcyMetaDataParser_new :: IcyMetaDataParser where
  "IcyMetaDataParser_new = \<lparr>stride = 0, mode = InRun 0, meta_text = [], parsed_tag = None\<rparr>"

text \<open>
  Modelled from the spec: \<open>Start\<close> activates the parser, in state \<open>InRun\<close> with counter
  \<open>stride\<close>.
\<close>

definition Start :: "IcyMetaDataParser \<Rightarrow> nat \<Rightarrow> IcyMetaDataParser" where
  "Start p n = \<lparr>stride = n, mode = InRun n, meta_text = [], parsed_tag = None\<rparr>"

text \<open>Modelled from the spec: whether the parser is active.\<close>

definition IsDefined :: "IcyMetaDataParser \<Rightarrow> bool" where
  "IsDefined p = (stride p > 0)"

text \<open>
  Modelled from the spec: \<open>Data p limit\<close> is the number of leading bytes in the next audio
  run, the minimum of what remains of the run and \<open>limit\<close>; after \<open>stride\<close> audio bytes
  the parser expects the length byte.
\<close>

definition Data :: "IcyMetaDataParser \<Rightarrow> nat \<Rightarrow> nat \<times> IcyMetaDataParser" where
  "Data p limit =
     (if \<not> IsDefined p then (limit, p)
      else case mode p of
        InRun rest \<Rightarrow>
          (let n = min rest limit
           in (n, p\<lparr>mode := (if rest - n = 0 then InLength else InRun (rest - n))\<rparr>))
      | InLength \<Rightarrow> (0, p)
      | InMeta rest \<Rightarrow> (0, p))"

text \<open>
  Modelled from the spec: the metadata text is \<^verbatim>\<open>KEY='VALUE';\<close> pairs separated by
  semicolons; padding NULs at the tail are ignored; only \<^verbatim>\<open>StreamTitle\<close> is consumed and
  becomes the title item.  A malformed block (a missing quote) is discarded.
\<close>

datatype icy_scan_state =
  ScanKey string | ScanQuote string | ScanValue string string | ScanSemicolon

fun icy_scan :: "icy_scan_state \<Rightarrow> string \<Rightarrow> (string \<times> string) list option" where
  "icy_scan (ScanKey k) [] = (if k = [] then Some [] else None)"
| "icy_scan (ScanKey k) (ch # s) =
     (if ch = CHR ''='' then icy_scan (ScanQuote k) s else icy_scan (ScanKey (k @ [ch])) s)"
| "icy_scan (ScanQuote k) [] = None"
| "icy_scan (ScanQuote k) (ch # s) =
     (if ch = CHR 0x27 then icy_scan (ScanValue k []) s else None)"
| "icy_scan (ScanValue k v) [] = None"
| "icy_scan (ScanValue k v) (ch # s) =
     (if ch = CHR 0x27 \<and> (s = [] \<or> hd s = CHR '';'')
      then map_option ((#) (k, v)) (icy_scan ScanSemicolon s)
      else icy_scan (ScanValue k (v @ [ch])) s)"
| "icy_scan ScanSemicolon [] = Some []"
| "icy_scan ScanSemicolon (ch # s) =
     (if ch = CHR '';'' then icy_scan (ScanKey []) s else None)"

text \<open>Modelled from the spec: the tag of a complete block, or \<open>None\<close> for a malformed one.\<close>

definition icy_parse_tag :: "string \<Rightarrow> tag option" where
  "icy_parse_tag text =
     (case icy_scan (ScanKey []) (rev (dropWhile (\<lambda>ch. ch = CHR 0x00) (rev text))) of
        None \<Rightarrow> None
      | Some pairs \<Rightarrow>
          (case map_of pairs ''StreamTitle'' of
             None \<Rightarrow> Some tag_new
           | Some v \<Rightarrow> Some (tag_add_item tag_new TAG_TITLE v)))"

text \<open>
  Modelled from the spec: \<open>Meta p buf limit\<close> consumes up to \<open>limit\<close> leading metadata bytes
  of \<open>buf\<close> and returns their number.  In \<open>InLength\<close> the first byte is \<open>L\<close>: an empty block (\<open>L = 0\<close>) produces
  no tag and the parser is back in audio mode; otherwise \<open>16 * L\<close> bytes of text follow.
  When the block is complete it is parsed, the tag is stored, and the parser returns to
  audio mode.
\<close>

definition meta_block :: "IcyMetaDataParser \<Rightarrow> nat \<Rightarrow> string \<Rightarrow> nat \<Rightarrow> nat \<times> IcyMetaDataParser" where
  "meta_block p rest buf limit =
     (let n = min rest limit;
          text = meta_text p @ take n buf
      in if rest - n = 0
         then (n, p\<lparr>mode := InRun (stride p), meta_text := [],
                    parsed_tag := (case icy_parse_tag text of
                                     None \<Rightarrow> parsed_tag p | Some t \<Rightarrow> Some t)\<rparr>)
         else (n, p\<lparr>mode := InMeta (rest - n), meta_text := text\<rparr>))"

text \<open>Modelled from the spec: \<open>Meta\<close>, with \<open>meta_block\<close> for the text of a block.\<close>

definition Meta :: "IcyMetaDataParser \<Rightarrow> string \<Rightarrow> nat \<Rightarrow> nat \<times> IcyMetaDataParser" where
  "Meta p buf limit =
     (if \<not> IsDefined p then (0, p)
      else case mode p of
        InRun rest \<Rightarrow> (0, p)
      | InLength \<Rightarrow>
          (case buf of
             [] \<Rightarrow> (0, p)
           | l # buf' \<Rightarrow>
               if limit = 0 then (0, p)
               else if (of_char l :: nat) = 0 then (1, p\<lparr>mode := InRun (stride p)\<rparr>)
               else (let (n, p') = meta_block (p\<lparr>meta_text := []\<rparr>) (16 * of_char l) buf' (limit - 1)
                     in (n + 1, p')))
      | InMeta rest \<Rightarrow> meta_block p rest buf limit)"

text \<open>
  Modelled from the spec: the consumer claims the pending tag; a later call yields none
  until the parser emits another.
\<close>

definition ReadTag :: "IcyMetaDataParser \<Rightarrow> tag option \<times> IcyMetaDataParser" where
  "ReadTag p = (parsed_tag p, p\<lparr>parsed_tag := None\<rparr>)"

subsection \<open>\<^verbatim>\<open>class CurlInputBuffer\<close>\<close>

record CurlInputBuffer =
  size_b :: nat
  consumed :: nat
  data :: string

text \<open>The constructor copies \<open>size0\<close> bytes from \<open>data0\<close>.\<close>

definition CurlInputBuffer_new :: "string \<Rightarrow> nat \<Rightarrow> CurlInputBuffer" where
  "CurlInputBuffer_new data0 size0 = \<lparr>size_b = size0, consumed = 0, data = take size0 data0\<rparr>"

definition Begin :: "CurlInputBuffer \<Rightarrow> string" where
  "Begin b = drop (consumed b) (data b)"

definition TotalSize :: "CurlInputBuffer \<Rightarrow> nat" where
  "TotalSize b = size_b b"

definition Available :: "CurlInputBuffer \<Rightarrow> nat" where
  "Available b = size_b b - consumed b"

text \<open>\<open>Consume\<close> returns \<open>False\<close> if the buffer is now empty.\<close>

definition Consume :: "CurlInputBuffer \<Rightarrow> nat \<Rightarrow> failure + (bool \<times> CurlInputBuffer)" where
  "Consume b len =
     (if \<not> consumed b < size_b b then Inl AssertionFailed
      else (let b' = b\<lparr>consumed := consumed b + len\<rparr>
            in if consumed b' < size_b b' then Inr (True, b')
               else if consumed b' = size_b b' then Inr (False, b')
               else Inl AssertionFailed))"

text \<open>\<open>Read\<close> also yields the \<open>len\<close> bytes it copies to \<open>dest\<close>.\<close>

definition Read :: "CurlInputBuffer \<Rightarrow> nat \<Rightarrow> failure + (bool \<times> string \<times> CurlInputBuffer)" where
  "Read b len =
     (if \<not> consumed b + len \<le> size_b b then Inl AssertionFailed
      else case Consume b len of
        Inl e \<Rightarrow> Inl e
      | Inr (r, b') \<Rightarrow> Inr (r, take len (Begin b), b'))"

subsection \<open>The stream: \<^verbatim>\<open>struct input_curl\<close>\<close>

datatype GError = GError (code: int) (message: string)

text \<open>
  A \<^verbatim>\<open>CURL\<close> easy handle is the list of options set on it, in the order of the
  \<^verbatim>\<open>curl_easy_setopt\<close> calls.
\<close>

datatype CURLoption =
  CURLOPT_USERAGENT | CURLOPT_HEADERFUNCTION | CURLOPT_WRITEHEADER | CURLOPT_WRITEFUNCTION
| CURLOPT_WRITEDATA | CURLOPT_HTTP200ALIASES | CURLOPT_FOLLOWLOCATION | CURLOPT_NETRC
| CURLOPT_MAXREDIRS | CURLOPT_FAILONERROR | CURLOPT_ERRORBUFFER | CURLOPT_NOPROGRESS
| CURLOPT_NOSIGNAL | CURLOPT_CONNECTTIMEOUT | CURLOPT_PROXY | CURLOPT_PROXYPORT
| CURLOPT_PROXYUSERPWD | CURLOPT_URL | CURLOPT_HTTPHEADER | CURLOPT_RANGE

datatype curl_value =
  Str string | Num int | Slist "string list"
| HeaderFunction | WriteFunction | StreamPointer | ErrorBuffer

type_synonym CURL = "(CURLoption \<times> curl_value) list"

definition curl_easy_setopt :: "CURL \<Rightarrow> CURLoption \<Rightarrow> curl_value \<Rightarrow> CURL" where
  "curl_easy_setopt h opt v = h @ [(opt, v)]"

text \<open>
  \<^verbatim>\<open>struct input_stream\<close>, the base of every stream, with the fields the plugin uses
  (\<^verbatim>\<open>size\<close> is \<open>base_size\<close> here; a negative size means that it is not known).
\<close>

record input_stream =
  uri :: string
  mime :: "string option"
  base_size :: goffset
  offset :: goffset
  seekable :: bool
  ready :: bool

record input_curl = input_stream +
  range_hdr :: "string option"
  request_headers :: "string list"
  easy :: "CURL option"
  buffers :: "CurlInputBuffer list"
  paused :: bool
  error :: string
  icy :: IcyMetaDataParser
  meta_name :: "string option"
  tag :: "tag option"
  postponed_error :: "GError option"

text \<open>
  Modelled from the spec: \<^verbatim>\<open>input_stream_init\<close> (\<^verbatim>\<open>input_internal.h\<close> is not among
  the sources).  A stream that has just been opened is not ready, not seekable, of unknown
  size and mime type, and its offset, the number of bytes the consumer has observed, is 0.
  The constructor of \<^verbatim>\<open>input_curl\<close> then sets the fields of the plugin.
\<close>

definition input_curl_new :: "string \<Rightarrow> input_curl" where
  "input_curl_new url =
     \<lparr>uri = url, mime = None, base_size = - 1, offset = 0, seekable = False, ready = False,
      range_hdr = None, request_headers = [], easy = None, buffers = [], paused = False,
      error = [], icy = IcyMetaDataParser_new, meta_name = None, tag = None,
      postponed_error = None\<rparr>"

definition CURL_MAX_BUFFERED :: nat where
  "CURL_MAX_BUFFERED = 512 * 1024"

definition CURL_RESUME_AT :: nat where
  "CURL_RESUME_AT = 384 * 1024"

text \<open>
  What the process and libcurl contribute to a call: the configuration read by
  \<^verbatim>\<open>input_curl_init\<close>, and the results of the libcurl calls that can fail
  (a \<^verbatim>\<open>CURLcode\<close> or \<^verbatim>\<open>CURLMcode\<close> of 0 is success).
\<close>

record curl_env =
  VERSION :: string
  http_200_aliases :: "string list"
  proxy :: "string option"
  proxy_port :: nat
  proxy_user :: "string option"
  proxy_password :: "string option"
  curl_easy_init :: bool
  setopt_url_code :: nat
  curl_multi_add_handle :: nat
  curl_easy_strerror :: "nat \<Rightarrow> string"
  curl_multi_strerror :: "nat \<Rightarrow> string"

text \<open>
  The functions that \<^verbatim>\<open>io_thread_call\<close> ships to the I/O thread.  A function of the
  consumer API returns the list of the calls it made; the call itself runs to its end
  before \<^verbatim>\<open>io_thread_call\<close> returns.  The list \<^verbatim>\<open>curl.requests\<close> of registered streams is
  outside the model: a stream is registered from \<^verbatim>\<open>input_curl_easy_add\<close> to
  \<^verbatim>\<open>input_curl_easy_free\<close>, while its \<open>easy\<close> handle is set.
\<close>

datatype io_call =
  input_curl_easy_add_callback | input_curl_easy_free_callback | input_curl_resume_call

definition input_curl_resume :: "input_curl \<Rightarrow> input_curl" where
  "input_curl_resume c = (if paused c then c\<lparr>paused := False\<rparr> else c)"

definition input_curl_easy_add :: "curl_env \<Rightarrow> input_curl \<Rightarrow> failure + (bool \<times> GError option)" where
  "input_curl_easy_add env c =
     (if easy c = None then Inl AssertionFailed
      else if curl_multi_add_handle env \<noteq> 0
      then Inr (False, Some (GError (int (curl_multi_add_handle env))
                  (''curl_multi_add_handle() failed: ''
                   @ curl_multi_strerror env (curl_multi_add_handle env))))
      else Inr (True, None))"

definition input_curl_easy_add_indirect ::
  "curl_env \<Rightarrow> input_curl \<Rightarrow> failure + (bool \<times> GError option \<times> io_call list)" where
  "input_curl_easy_add_indirect env c =
     (if easy c = None then Inl AssertionFailed
      else case input_curl_easy_add env c of
        Inl e \<Rightarrow> Inl e
      | Inr (success, err) \<Rightarrow> Inr (success, err, [input_curl_easy_add_callback]))"

definition input_curl_easy_free :: "input_curl \<Rightarrow> input_curl" where
  "input_curl_easy_free c =
     (if easy c = None then c
      else c\<lparr>easy := None, request_headers := [], range_hdr := None\<rparr>)"

definition input_curl_easy_free_indirect :: "input_curl \<Rightarrow> input_curl \<times> io_call list" where
  "input_curl_easy_free_indirect c = (input_curl_easy_free c, [input_curl_easy_free_callback])"

text \<open>
  \<^verbatim>\<open>input_curl_abort_all_requests\<close>, for one stream: the body of its loop runs for the
  stream if it is registered.
\<close>

definition input_curl_abort_all_requests :: "GError \<Rightarrow> input_curl \<Rightarrow> failure + input_curl" where
  "input_curl_abort_all_requests err c =
     (if easy c = None then Inr c
      else if postponed_error c \<noteq> None then Inl AssertionFailed
      else Inr ((input_curl_easy_free c)\<lparr>postponed_error := Some err, ready := True\<rparr>))"

definition input_curl_request_done :: "input_curl \<Rightarrow> nat \<Rightarrow> long \<Rightarrow> failure + input_curl" where
  "input_curl_request_done c result status =
     (if easy c \<noteq> None \<or> postponed_error c \<noteq> None then Inl AssertionFailed
      else (let c1 =
               (if result \<noteq> 0
                then c\<lparr>postponed_error :=
                        Some (GError (int result) (''curl failed: '' @ c_str (error c)))\<rparr>
                else if status <s 200 \<or> 300 \<le>s status
                then c\<lparr>postponed_error :=
                        Some (GError 0 (''got HTTP status '' @ printf_lld status))\<rparr>
                else c)
            in Inr (c1\<lparr>ready := True\<rparr>)))"

text \<open>
  \<^verbatim>\<open>input_curl_handle_done\<close>: \<^verbatim>\<open>input_curl_find_request\<close> finds the stream if it is
  registered; \<open>status\<close> is the response code that \<^verbatim>\<open>curl_easy_getinfo\<close> reports.
\<close>

definition input_curl_handle_done :: "input_curl \<Rightarrow> nat \<Rightarrow> long \<Rightarrow> failure + input_curl" where
  "input_curl_handle_done c result status =
     (if easy c = None then Inl AssertionFailed
      else input_curl_request_done (input_curl_easy_free c) result status)"

definition curl_total_buffer_size :: "input_curl \<Rightarrow> nat" where
  "curl_total_buffer_size c = foldl (\<lambda>total i. total + TotalSize i) 0 (buffers c)"

definition input_curl_check :: "input_curl \<Rightarrow> bool \<times> GError option \<times> input_curl" where
  "input_curl_check c =
     (let success = (postponed_error c = None)
      in if \<not> success then (success, postponed_error c, c\<lparr>postponed_error := None\<rparr>)
         else (success, None, c))"

definition input_curl_tag :: "input_curl \<Rightarrow> tag option \<times> input_curl" where
  "input_curl_tag c = (tag c, c\<lparr>tag := None\<rparr>)"

text \<open>
  \<^verbatim>\<open>fill_buffer\<close> sleeps while the transfer is live and the queue is empty; otherwise it
  returns its success and the error it propagates.
\<close>

definition fill_buffer :: "input_curl \<Rightarrow> (bool \<times> GError option) blocking \<times> input_curl" where
  "fill_buffer c =
     (if easy c \<noteq> None \<and> buffers c = [] then (Waiting, c)
      else if postponed_error c \<noteq> None
      then (Done (False, postponed_error c), c\<lparr>postponed_error := None\<rparr>)
      else (Done (buffers c \<noteq> [], None), c))"

subsection \<open>Reading\<close>

text \<open>
  One pass of the loop in \<^verbatim>\<open>read_from_buffer\<close> has two halves, each of which may leave the
  loop.  The loop state is \<open>(icy, buffer, dest, length, nbytes)\<close>, with \<open>buffer\<close> the front
  of the queue and \<open>dest\<close> the bytes copied to the destination so far; the result is
  \<open>(nbytes, dest, icy, front)\<close>, where \<open>front\<close> is \<open>None\<close> after \<^verbatim>\<open>pop_front\<close>.
\<close>

datatype ('r, 's) loop_step = Break 'r | Continue 's

type_synonym rfb_state = "IcyMetaDataParser \<times> CurlInputBuffer \<times> string \<times> nat \<times> nat"

type_synonym rfb_result = "nat \<times> string \<times> IcyMetaDataParser \<times> CurlInputBuffer option"

definition read_from_buffer_data :: "rfb_state \<Rightarrow> failure + (rfb_result, rfb_state) loop_step" where
  "read_from_buffer_data st =
     (case st of (icy0, buffer, dest, len, nbytes) \<Rightarrow>
        (case Data icy0 len of (chunk, icy1) \<Rightarrow>
           if chunk > 0 then
             (case Read buffer chunk of
                Inl e \<Rightarrow> Inl e
              | Inr (nonempty, bytes, buffer1) \<Rightarrow>
                  if \<not> nonempty then Inr (Break (nbytes + chunk, dest @ bytes, icy1, None))
                  else if len - chunk = 0
                  then Inr (Break (nbytes + chunk, dest @ bytes, icy1, Some buffer1))
                  else Inr (Continue (icy1, buffer1, dest @ bytes, len - chunk, nbytes + chunk)))
           else Inr (Continue (icy1, buffer, dest, len, nbytes))))"

definition read_from_buffer_meta :: "rfb_state \<Rightarrow> failure + (rfb_result, rfb_state) loop_step" where
  "read_from_buffer_meta st =
     (case st of (icy0, buffer, dest, len, nbytes) \<Rightarrow>
        (case Meta icy0 (Begin buffer) len of (chunk, icy1) \<Rightarrow>
           if chunk > 0 then
             (case Consume buffer chunk of
                Inl e \<Rightarrow> Inl e
              | Inr (nonempty, buffer1) \<Rightarrow>
                  if \<not> nonempty then Inr (Break (nbytes, dest, icy1, None))
                  else if len - chunk = 0 then Inr (Break (nbytes, dest, icy1, Some buffer1))
                  else Inr (Continue (icy1, buffer1, dest, len - chunk, nbytes)))
           else Inr (Continue (icy1, buffer, dest, len, nbytes))))"

text \<open>The \<^verbatim>\<open>while (true)\<close> loop; \<open>None\<close> is a loop that never leaves.\<close>

partial_function (option) read_from_buffer_loop :: "rfb_state \<Rightarrow> (failure + rfb_result) option" where
  "read_from_buffer_loop st =
     (case read_from_buffer_data st of
        Inl e \<Rightarrow> Some (Inl e)
      | Inr (Break r) \<Rightarrow> Some (Inr r)
      | Inr (Continue st1) \<Rightarrow>
          (case read_from_buffer_meta st1 of
             Inl e \<Rightarrow> Some (Inl e)
           | Inr (Break r) \<Rightarrow> Some (Inr r)
           | Inr (Continue st2) \<Rightarrow> read_from_buffer_loop st2))"

declare read_from_buffer_loop.simps [code]

text \<open>
  \<^verbatim>\<open>read_from_buffer\<close> returns \<open>(nbytes, dest, icy, buffers)\<close>.  \<^verbatim>\<open>buffers.front()\<close> of an
  empty queue is undefined behaviour.
\<close>

definition read_from_buffer ::
  "IcyMetaDataParser \<Rightarrow> CurlInputBuffer list \<Rightarrow> nat
   \<Rightarrow> (failure + (nat \<times> string \<times> IcyMetaDataParser \<times> CurlInputBuffer list)) option" where
  "read_from_buffer icy0 bufs len0 =
     (case bufs of
        [] \<Rightarrow> Some (Inl OutOfBounds)
      | buffer # rest \<Rightarrow>
          (let len = (if len0 > Available buffer then Available buffer else len0)
           in case read_from_buffer_loop (icy0, buffer, [], len, 0) of
                None \<Rightarrow> None
              | Some (Inl e) \<Rightarrow> Some (Inl e)
              | Some (Inr (nbytes, dest, icy1, front)) \<Rightarrow>
                  Some (Inr (nbytes, dest, icy1,
                             (case front of None \<Rightarrow> rest | Some b \<Rightarrow> b # rest)))))"

definition copy_icy_tag :: "input_curl \<Rightarrow> input_curl" where
  "copy_icy_tag c =
     (case ReadTag (icy c) of (t, icy1) \<Rightarrow>
        (case t of
           None \<Rightarrow> c\<lparr>icy := icy1\<rparr>
         | Some tg \<Rightarrow>
             c\<lparr>icy := icy1,
               tag := Some (case meta_name c of
                              None \<Rightarrow> tg
                            | Some name \<Rightarrow>
                                if \<not> tag_has_type tg TAG_NAME
                                then tag_add_item tg TAG_NAME name else tg)\<rparr>))"

definition input_curl_available :: "input_curl \<Rightarrow> bool" where
  "input_curl_available c = (postponed_error c \<noteq> None \<or> easy c = None \<or> buffers c \<noteq> [])"

text \<open>
  The inner loop of \<^verbatim>\<open>input_curl_read\<close> (``send buffer contents''), on the parser, the
  queue and the locals \<open>dest\<close>, \<open>nbytes\<close> and \<open>size\<close>.
\<close>

partial_function (option) send_buffer_contents ::
  "IcyMetaDataParser \<Rightarrow> CurlInputBuffer list \<Rightarrow> string \<Rightarrow> nat \<Rightarrow> nat
   \<Rightarrow> (failure + (IcyMetaDataParser \<times> CurlInputBuffer list \<times> string \<times> nat \<times> nat)) option" where
  "send_buffer_contents icy0 bufs dest nbytes sz =
     (if sz > 0 \<and> bufs \<noteq> [] then
        (case read_from_buffer icy0 bufs sz of
           None \<Rightarrow> None
         | Some (Inl e) \<Rightarrow> Some (Inl e)
         | Some (Inr (copy, bytes, icy1, bufs1)) \<Rightarrow>
             send_buffer_contents icy1 bufs1 (dest @ bytes) (nbytes + copy) (sz - copy))
      else Some (Inr (icy0, bufs, dest, nbytes, sz)))"

declare send_buffer_contents.simps [code]

text \<open>
  The \<^verbatim>\<open>do ... while (nbytes == 0)\<close> loop of \<^verbatim>\<open>input_curl_read\<close>.  It leaves with
  \<open>Waiting\<close> where \<^verbatim>\<open>fill_buffer\<close> sleeps, with \<open>Done (False, error, ...)\<close> where
  \<^verbatim>\<open>fill_buffer\<close> fails, and with \<open>Done (True, ...)\<close> at its end.
\<close>

partial_function (option) input_curl_read_loop ::
  "input_curl \<Rightarrow> string \<Rightarrow> nat \<Rightarrow> nat
   \<Rightarrow> (failure + ((bool \<times> GError option \<times> string \<times> nat) blocking \<times> input_curl)) option" where
  "input_curl_read_loop c dest nbytes sz =
     (case fill_buffer c of
        (Waiting, c1) \<Rightarrow> Some (Inr (Waiting, c1))
      | (Done (success, err), c1) \<Rightarrow>
          if \<not> success then Some (Inr (Done (False, err, dest, nbytes), c1))
          else
            (case send_buffer_contents (icy c1) (buffers c1) dest nbytes sz of
               None \<Rightarrow> None
             | Some (Inl e) \<Rightarrow> Some (Inl e)
             | Some (Inr (icy2, bufs2, dest2, nbytes2, sz2)) \<Rightarrow>
                 if nbytes2 = 0
                 then input_curl_read_loop (c1\<lparr>icy := icy2, buffers := bufs2\<rparr>) dest2 nbytes2 sz2
                 else Some (Inr (Done (True, None, dest2, nbytes2),
                                 c1\<lparr>icy := icy2, buffers := bufs2\<rparr>))))"

declare input_curl_read_loop.simps [code]

text \<open>
  \<^verbatim>\<open>input_curl_read\<close> returns \<open>(nbytes, dest, error)\<close>, the stream, and the calls shipped to
  the I/O thread.  A call that is \<open>Waiting\<close> has returned no bytes so far, so that, once the
  I/O thread has changed the stream, it goes on as a call of \<open>input_curl_read\<close> with the
  same \<open>size\<close> does.
\<close>

definition input_curl_read ::
  "input_curl \<Rightarrow> nat
   \<Rightarrow> (failure + ((nat \<times> string \<times> GError option) blocking \<times> input_curl \<times> io_call list)) option" where
  "input_curl_read c sz =
     (case input_curl_read_loop c [] 0 sz of
        None \<Rightarrow> None
      | Some (Inl e) \<Rightarrow> Some (Inl e)
      | Some (Inr (Waiting, c1)) \<Rightarrow> Some (Inr (Waiting, c1, []))
      | Some (Inr (Done (success, err, dest, nbytes), c1)) \<Rightarrow>
          if \<not> success then Some (Inr (Done (0, [], err), c1, []))
          else
            (let c2 = (if IsDefined (icy c1) then copy_icy_tag c1 else c1);
                 c3 = c2\<lparr>offset := offset c2 + word_of_nat nbytes\<rparr>
             in if paused c3 \<and> curl_total_buffer_size c3 < CURL_RESUME_AT
                then Some (Inr (Done (nbytes, dest, None), input_curl_resume c3,
                                [input_curl_resume_call]))
                else Some (Inr (Done (nbytes, dest, None), c3, []))))"

definition input_curl_eof :: "input_curl \<Rightarrow> bool" where
  "input_curl_eof c = (easy c = None \<and> buffers c = [])"

subsection \<open>The callbacks of libcurl\<close>

text \<open>
  The two loops that strip the value of a header line.  \<open>header\<close> holds the bytes of the
  line, and \<open>value\<close> and \<open>end\<close> are positions in it.
\<close>

function skip_leading_space :: "string \<Rightarrow> nat \<Rightarrow> nat \<Rightarrow> nat" where
  "skip_leading_space header value end =
     (if value < end \<and> g_ascii_isspace (header ! value)
      then skip_leading_space header (value + 1) end else value)"
  by pat_completeness auto
termination
  by (relation "measure (\<lambda>(header, value, end). end - value)") auto

function strip_trailing_space :: "string \<Rightarrow> nat \<Rightarrow> nat \<Rightarrow> nat" where
  "strip_trailing_space header value end =
     (if end > value \<and> g_ascii_isspace (header ! (end - 1))
      then strip_trailing_space header value (end - 1) else end)"
  by pat_completeness auto
termination
  by (relation "measure (\<lambda>(header, value, end). end)") auto

declare skip_leading_space.simps [simp del]
declare strip_trailing_space.simps [simp del]

text \<open>
  \<^verbatim>\<open>input_curl_headerfunction(ptr, size, nmemb, stream)\<close>.  libcurl passes \<open>size * nmemb\<close>
  bytes at \<open>ptr\<close>.  The function always returns \<open>size * nmemb\<close>; the model returns the
  stream, or the failure of a store outside \<^verbatim>\<open>name[64]\<close> or \<^verbatim>\<open>buffer[64]\<close>.  The
  positions \<open>value\<close> and \<open>end\<close> count from \<open>header\<close>, so that \<^verbatim>\<open>value - header\<close> is
  \<open>colon\<close> at the first test and \<^verbatim>\<open>end - header\<close> is \<open>end\<close>.
\<close>

definition input_curl_headerfunction ::
  "string \<Rightarrow> nat \<Rightarrow> nat \<Rightarrow> input_curl \<Rightarrow> failure + input_curl" where
  "input_curl_headerfunction ptr size0 nmemb c =
     (let sz = size0 * nmemb;
          header = take sz ptr
      in case memchr header CHR '':'' of
           None \<Rightarrow> Inr c
         | Some colon \<Rightarrow>
             if colon \<ge> 64 then Inr c
             else
               (case memcpy_terminated 64 header colon of
                  Inl e \<Rightarrow> Inl e
                | Inr name \<Rightarrow>
                    (let value = skip_leading_space header (colon + 1) sz;
                         end = strip_trailing_space header value sz
                     in if g_ascii_strcasecmp name ''accept-ranges'' = 0 then
                          (if \<not> IsDefined (icy c) then Inr (c\<lparr>seekable := True\<rparr>) else Inr c)
                        else if g_ascii_strcasecmp name ''content-length'' = 0 then
                          (if end \<ge> 64 then Inr c
                           else case memcpy_terminated 64 (drop value header)
                                       (size_t_diff end value) of
                                  Inl e \<Rightarrow> Inl e
                                | Inr buffer \<Rightarrow>
                                    Inr (c\<lparr>base_size := offset c + g_ascii_strtoull buffer\<rparr>))
                        else if g_ascii_strcasecmp name ''content-type'' = 0 then
                          Inr (c\<lparr>mime := Some (g_strndup (drop value header)
                                                 (size_t_diff end value))\<rparr>)
                        else if g_ascii_strcasecmp name ''icy-name'' = 0
                                \<or> g_ascii_strcasecmp name ''ice-name'' = 0
                                \<or> g_ascii_strcasecmp name ''x-audiocast-name'' = 0 then
                          (let name' = g_strndup (drop value header) (size_t_diff end value)
                           in Inr (c\<lparr>meta_name := Some name',
                                     tag := Some (tag_add_item tag_new TAG_NAME name')\<rparr>))
                        else if g_ascii_strcasecmp name ''icy-metaint'' = 0 then
                          (if end \<ge> 64 \<or> IsDefined (icy c) then Inr c
                           else case memcpy_terminated 64 (drop value header)
                                       (size_t_diff end value) of
                                  Inl e \<Rightarrow> Inl e
                                | Inr buffer \<Rightarrow>
                                    (let icy_metaint = unat (g_ascii_strtoull buffer)
                                     in if icy_metaint > 0
                                        then Inr (c\<lparr>icy := Start (icy c) icy_metaint,
                                                  seekable := False\<rparr>)
                                        else Inr c))
                        else Inr c)))"

text \<open>A sequence of header lines, each given as \<open>(ptr, size, nmemb)\<close>, in order.\<close>

fun header_lines :: "(string \<times> nat \<times> nat) list \<Rightarrow> input_curl \<Rightarrow> failure + input_curl" where
  "header_lines [] c = Inr c"
| "header_lines ((ptr, size0, nmemb) # hs) c =
     (case input_curl_headerfunction ptr size0 nmemb c of
        Inl e \<Rightarrow> Inl e
      | Inr c' \<Rightarrow> header_lines hs c')"

definition CURL_WRITEFUNC_PAUSE :: nat where
  "CURL_WRITEFUNC_PAUSE = 0x10000001"

text \<open>
  \<^verbatim>\<open>input_curl_writefunction(ptr, size, nmemb, stream)\<close> returns the stream and its
  \<^verbatim>\<open>size_t\<close> result.
\<close>

definition input_curl_writefunction ::
  "string \<Rightarrow> nat \<Rightarrow> nat \<Rightarrow> input_curl \<Rightarrow> input_curl \<times> nat" where
  "input_curl_writefunction ptr size0 nmemb c =
     (let sz = size0 * nmemb
      in if sz = 0 then (c, 0)
         else if curl_total_buffer_size c + sz \<ge> CURL_MAX_BUFFERED
         then (c\<lparr>paused := True\<rparr>, CURL_WRITEFUNC_PAUSE)
         else (c\<lparr>buffers := buffers c @ [CurlInputBuffer_new ptr sz], ready := True\<rparr>, sz))"

subsection \<open>Setting up a transfer, seeking, opening\<close>

definition setopts :: "CURL \<Rightarrow> (CURLoption \<times> curl_value) list \<Rightarrow> CURL" where
  "setopts h ovs = foldl (\<lambda>h' ov. curl_easy_setopt h' (fst ov) (snd ov)) h ovs"

text \<open>\<^verbatim>\<open>input_curl_easy_init\<close> returns its success, the error it sets, and the stream.\<close>

definition input_curl_easy_init :: "curl_env \<Rightarrow> input_curl \<Rightarrow> bool \<times> GError option \<times> input_curl" where
  "input_curl_easy_init env c =
     (if \<not> curl_easy_init env
      then (False, Some (GError 0 ''curl_easy_init() failed''), c\<lparr>easy := None\<rparr>)
      else
        (let h1 = setopts []
                    [(CURLOPT_USERAGENT, Str (''Music Player Daemon '' @ VERSION env)),
                     (CURLOPT_HEADERFUNCTION, HeaderFunction),
                     (CURLOPT_WRITEHEADER, StreamPointer),
                     (CURLOPT_WRITEFUNCTION, WriteFunction),
                     (CURLOPT_WRITEDATA, StreamPointer),
                     (CURLOPT_HTTP200ALIASES, Slist (http_200_aliases env)),
                     (CURLOPT_FOLLOWLOCATION, Num 1),
                     (CURLOPT_NETRC, Num 1),
                     (CURLOPT_MAXREDIRS, Num 5),
                     (CURLOPT_FAILONERROR, Num 1),
                     (CURLOPT_ERRORBUFFER, ErrorBuffer),
                     (CURLOPT_NOPROGRESS, Num 1),
                     (CURLOPT_NOSIGNAL, Num 1),
                     (CURLOPT_CONNECTTIMEOUT, Num 10)];
             h2 = (case proxy env of None \<Rightarrow> h1
                   | Some p \<Rightarrow> curl_easy_setopt h1 CURLOPT_PROXY (Str p));
             h3 = (if proxy_port env > 0
                   then curl_easy_setopt h2 CURLOPT_PROXYPORT (Num (int (proxy_port env)))
                   else h2);
             h4 = (case (proxy_user env, proxy_password env) of
                     (Some u, Some pw) \<Rightarrow>
                       curl_easy_setopt h3 CURLOPT_PROXYUSERPWD (Str (u @ '':'' @ pw))
                   | _ \<Rightarrow> h3)
         in if setopt_url_code env \<noteq> 0
            then (False,
                  Some (GError (int (setopt_url_code env))
                          (''curl_easy_setopt() failed: ''
                           @ curl_easy_strerror env (setopt_url_code env))),
                  c\<lparr>easy := Some h4\<rparr>)
            else
              (let h5 = curl_easy_setopt h4 CURLOPT_URL (Str (uri c));
                   hdrs = [''Icy-Metadata: 1'']
               in (True, None,
                   c\<lparr>easy := Some (curl_easy_setopt h5 CURLOPT_HTTPHEADER (Slist hdrs)),
                     request_headers := hdrs\<rparr>))))"

definition SEEK_SET :: int where "SEEK_SET = 0"
definition SEEK_CUR :: int where "SEEK_CUR = 1"
definition SEEK_END :: int where "SEEK_END = 2"

text \<open>
  The loop of \<^verbatim>\<open>input_curl_seek\<close> that fast-forwards the buffer towards the absolute
  offset \<open>target\<close>.  The comparison \<^verbatim>\<open>offset - is->offset < (goffset)length\<close> is signed, and
  the assignment \<^verbatim>\<open>length = offset - is->offset\<close> converts to \<^verbatim>\<open>size_t\<close>.
\<close>

function seek_fast_forward :: "goffset \<Rightarrow> input_curl \<Rightarrow> failure + input_curl" where
  "seek_fast_forward target c =
     (case buffers c of
        [] \<Rightarrow> Inr c
      | buffer # rest \<Rightarrow>
          if offset c <s target then
            (let len = (if target - offset c <s word_of_nat (Available buffer)
                        then unat (target - offset c) else Available buffer)
             in case Consume buffer len of
                  Inl e \<Rightarrow> Inl e
                | Inr (nonempty, buffer1) \<Rightarrow>
                    seek_fast_forward target
                      (c\<lparr>buffers := (if nonempty then buffer1 # rest else rest),
                        offset := offset c + word_of_nat len\<rparr>))
          else Inr c)"
  by pat_completeness auto
termination
proof (relation "measure (\<lambda>(target, c). 2 * length (buffers c) + (if offset c <s target then 1 else 0))",
       goal_cases)
  case 1
  show ?case by simp
next
  case (2 target c buffer rest len r nonempty buffer1)
  show ?case
  proof (cases nonempty)
    case False
    with 2 show ?thesis by simp
  next
    case True
    with 2 have "consumed buffer + len < size_b buffer"
      by (auto simp: Consume_def Let_def split: if_splits)
    then have "len \<noteq> Available buffer"
      by (simp add: Available_def)
    with 2 have "len = unat (target - offset c)"
      by (simp split: if_splits)
    then have "offset c + word_of_nat len = target"
      by simp
    with 2 True show ?thesis by simp
  qed
qed

declare seek_fast_forward.simps [simp del]

text \<open>
  The end of \<^verbatim>\<open>input_curl_seek\<close>: it sleeps until the stream is ready and then
  propagates a postponed error.
\<close>

definition input_curl_seek_wait :: "input_curl \<Rightarrow> (bool \<times> GError option) blocking \<times> input_curl" where
  "input_curl_seek_wait c =
     (if \<not> ready c then (Waiting, c)
      else if postponed_error c \<noteq> None
      then (Done (False, postponed_error c), c\<lparr>postponed_error := None\<rparr>)
      else (Done (True, None), c))"

text \<open>
  The \<^verbatim>\<open>switch (whence)\<close> of \<^verbatim>\<open>input_curl_seek\<close> calculates the absolute offset;
  \<open>None\<close> is where it returns \<^verbatim>\<open>false\<close>.
\<close>

definition seek_target :: "input_curl \<Rightarrow> goffset \<Rightarrow> int \<Rightarrow> goffset option" where
  "seek_target c offset0 whence =
     (if whence = SEEK_SET then Some offset0
      else if whence = SEEK_CUR then Some (offset0 + offset c)
      else if whence = SEEK_END
      then (if base_size c <s 0 then None else Some (offset0 + base_size c))
      else None)"

text \<open>
  \<^verbatim>\<open>input_curl_seek(is, offset, whence, error_r)\<close> returns its result and error, the
  stream, and the calls shipped to the I/O thread.  \<open>input_curl_seek_body\<close> is the function
  after its \<^verbatim>\<open>assert(is->ready)\<close>, which is all of it in a build with \<^verbatim>\<open>NDEBUG\<close>.
\<close>

definition input_curl_seek_body ::
  "curl_env \<Rightarrow> input_curl \<Rightarrow> goffset \<Rightarrow> int
   \<Rightarrow> failure + ((bool \<times> GError option) blocking \<times> input_curl \<times> io_call list)" where
  "input_curl_seek_body env c offset0 whence =
     (if whence = SEEK_SET \<and> offset0 = offset c then Inr (Done (True, None), c, [])
      else if \<not> seekable c then Inr (Done (False, None), c, [])
      else
        (case seek_target c offset0 whence of
           None \<Rightarrow> Inr (Done (False, None), c, [])
         | Some target \<Rightarrow>
             if target <s 0 then Inr (Done (False, None), c, [])
             else
               (case seek_fast_forward target c of
                  Inl e \<Rightarrow> Inl e
                | Inr c1 \<Rightarrow>
                    if target = offset c1 then Inr (Done (True, None), c1, [])
                    else
                      (case input_curl_easy_free_indirect c1 of (c2, calls1) \<Rightarrow>
                         (let c3 = c2\<lparr>buffers := [], offset := target\<rparr>
                          in if offset c3 = base_size c3
                             then Inr (Done (True, None), c3, calls1)
                             else
                               (case input_curl_easy_init env c3 of (ret, err, c4) \<Rightarrow>
                                  if \<not> ret then Inr (Done (False, err), c4, calls1)
                                  else
                                    (let c5 =
                                       (if 0 <s offset c4
                                        then c4\<lparr>range_hdr := Some (printf_lld (offset c4) @ ''-''),
                                                easy := map_option
                                                  (\<lambda>h. curl_easy_setopt h CURLOPT_RANGE
                                                          (Str (printf_lld (offset c4) @ ''-'')))
                                                  (easy c4)\<rparr>
                                        else c4);
                                         c6 = c5\<lparr>ready := False\<rparr>
                                     in case input_curl_easy_add_indirect env c6 of
                                          Inl e \<Rightarrow> Inl e
                                        | Inr (added, err2, calls2) \<Rightarrow>
                                            if \<not> added
                                            then Inr (Done (False, err2), c6, calls1 @ calls2)
                                            else (case input_curl_seek_wait c6 of (r, c7) \<Rightarrow>
                                                    Inr (r, c7, calls1 @ calls2)))))))))"

definition input_curl_seek ::
  "curl_env \<Rightarrow> input_curl \<Rightarrow> goffset \<Rightarrow> int
   \<Rightarrow> failure + ((bool \<times> GError option) blocking \<times> input_curl \<times> io_call list)" where
  "input_curl_seek env c offset0 whence =
     (if \<not> ready c then Inl AssertionFailed
      else input_curl_seek_body env c offset0 whence)"

text \<open>
  The destructor of \<^verbatim>\<open>input_curl\<close> frees the handle through the I/O thread;
  \<^verbatim>\<open>input_curl_close\<close> deletes the stream.
\<close>

definition input_curl_delete :: "input_curl \<Rightarrow> io_call list" where
  "input_curl_delete c = snd (input_curl_easy_free_indirect c)"

definition input_curl_close :: "input_curl \<Rightarrow> io_call list" where
  "input_curl_close c = input_curl_delete c"

text \<open>
  \<^verbatim>\<open>input_curl_open(url, mutex, cond, error_r)\<close> returns the stream or \<^verbatim>\<open>NULL\<close>, the
  error it sets, and the calls shipped to the I/O thread.
\<close>

definition input_curl_open ::
  "curl_env \<Rightarrow> string \<Rightarrow> failure + (input_curl option \<times> GError option \<times> io_call list)" where
  "input_curl_open env url =
     (if strncmp url ''http://'' 7 \<noteq> 0 then Inr (None, None, [])
      else
        (case input_curl_easy_init env (input_curl_new url) of (ok, err, c) \<Rightarrow>
           if \<not> ok then Inr (None, err, input_curl_delete c)
           else
             (case input_curl_easy_add_indirect env c of
                Inl e \<Rightarrow> Inl e
              | Inr (added, err2, calls) \<Rightarrow>
                  if \<not> added then Inr (None, err2, calls @ input_curl_delete c)
                  else Inr (Some c, None, calls))))"

subsection \<open>Runs of a stream\<close>

text \<open>
  What can happen to a stream between \<^verbatim>\<open>input_curl_open\<close> and \<^verbatim>\<open>input_curl_close\<close>.
  The first four events are the I/O thread's: libcurl invokes the callbacks and reports
  completion for a transfer only while its handle is registered, so that they do nothing on
  a stream without a handle.  \<open>TransferDone result status text\<close> is
  \<^verbatim>\<open>input_curl_handle_done\<close> after libcurl has left \<open>text\<close> in the error buffer.  The others
  are calls of the consumer, each taken from where it acquires the mutex to where it
  returns or sleeps; \<open>SeekWake\<close> is a sleeping \<^verbatim>\<open>input_curl_seek\<close> going on.
\<close>

datatype event =
  HeaderLine string nat nat
| WriteData string nat nat
| TransferDone nat long string
| AbortAll GError
| ReadCall nat
| SeekCall curl_env goffset int
| SeekWake
| CheckCall
| TagCall

text \<open>
  A step yields the number of bytes that a call of \<^verbatim>\<open>input_curl_read\<close> returns in it
  (0 in every other step) and the stream; \<open>None\<close> is a failure or a call that never returns.
\<close>

fun step :: "event \<Rightarrow> input_curl \<Rightarrow> (nat \<times> input_curl) option" where
  "step (HeaderLine ptr size0 nmemb) c =
     (if easy c = None then Some (0, c)
      else case input_curl_headerfunction ptr size0 nmemb c of
             Inl e \<Rightarrow> None | Inr c' \<Rightarrow> Some (0, c'))"
| "step (WriteData ptr size0 nmemb) c =
     (if easy c = None then Some (0, c)
      else Some (0, fst (input_curl_writefunction ptr size0 nmemb c)))"
| "step (TransferDone result status text) c =
     (if easy c = None then Some (0, c)
      else case input_curl_handle_done (c\<lparr>error := text\<rparr>) result status of
             Inl e \<Rightarrow> None | Inr c' \<Rightarrow> Some (0, c'))"
| "step (AbortAll err) c =
     (case input_curl_abort_all_requests err c of
        Inl e \<Rightarrow> None | Inr c' \<Rightarrow> Some (0, c'))"
| "step (ReadCall sz) c =
     (case input_curl_read c sz of
        None \<Rightarrow> None
      | Some (Inl e) \<Rightarrow> None
      | Some (Inr (Waiting, c', calls)) \<Rightarrow> Some (0, c')
      | Some (Inr (Done (nbytes, dest, err), c', calls)) \<Rightarrow> Some (nbytes, c'))"
| "step (SeekCall env offset0 whence) c =
     (case input_curl_seek env c offset0 whence of
        Inl e \<Rightarrow> None | Inr (r, c', calls) \<Rightarrow> Some (0, c'))"
| "step SeekWake c = Some (0, snd (input_curl_seek_wait c))"
| "step CheckCall c = Some (0, snd (snd (input_curl_check c)))"
| "step TagCall c = Some (0, snd (input_curl_tag c))"

text \<open>
  A run carries the sum of the values that \<^verbatim>\<open>input_curl_read\<close> has returned so far.
\<close>

fun run :: "event list \<Rightarrow> nat \<times> input_curl \<Rightarrow> (nat \<times> input_curl) option" where
  "run [] s = Some s"
| "run (e # es) s =
     (case step e (snd s) of
        None \<Rightarrow> None
      | Some (nbytes, c') \<Rightarrow> run es (fst s + nbytes, c'))"

definition is_seek :: "event \<Rightarrow> bool" where
  "is_seek e = (case e of SeekCall env offset0 whence \<Rightarrow> True | _ \<Rightarrow> False)"

subsection \<open>Concrete streams and environments\<close>

text \<open>A libcurl that succeeds, with no proxy configured.\<close>

definition plain_env :: curl_env where
  "plain_env =
     \<lparr>VERSION = ''0.18'', http_200_aliases = [''ICY 200 OK''], proxy = None, proxy_port = 0,
      proxy_user = None, proxy_password = None, curl_easy_init = True, setopt_url_code = 0,
      curl_multi_add_handle = 0, curl_easy_strerror = (\<lambda>code. ''error''),
      curl_multi_strerror = (\<lambda>code. ''error'')\<rparr>"

text \<open>A stream as \<^verbatim>\<open>input_curl_open\<close> leaves it, but for the options of its handle.\<close>

definition live_stream :: input_curl where
  "live_stream = (input_curl_new ''http://host/stream'')\<lparr>easy := Some []\<rparr>"

text \<open>A live stream that holds 31 chunks of 16384 bytes, 507904 bytes in all.\<close>

definition nearly_full_stream :: input_curl where
  "nearly_full_stream =
     live_stream\<lparr>ready := True,
       buffers := replicate 31 (CurlInputBuffer_new (replicate 16384 (CHR ''a'')) 16384)\<rparr>"

text \<open>A paused live stream that holds one chunk of ten bytes.\<close>

definition paused_stream :: input_curl where
  "paused_stream =
     live_stream\<lparr>ready := True, paused := True,
       buffers := [CurlInputBuffer_new ''0123456789'' 10]\<rparr>"

text \<open>
  A live stream with ICY metadata every 4 bytes, and a body for it: four audio bytes, a
  metadata block of 16 bytes announced by its length byte, and four more audio bytes.
\<close>

definition icy_stream :: input_curl where
  "icy_stream = live_stream\<lparr>icy := Start IcyMetaDataParser_new 4\<rparr>"

definition icy_body :: string where
  "icy_body = ''AAAA'' @ [CHR 0x01] @ ''StreamTitle='x';'' @ ''BBBB''"

text \<open>
  A stream whose transfer of ten bytes has ended and whose bytes have all been read; the
  server had announced byte ranges.
\<close>

definition finished_stream :: input_curl where
  "finished_stream =
     (input_curl_new ''http://host/file'')
       \<lparr>ready := True, seekable := True, base_size := 10, offset := 10\<rparr>"

text \<open>The options that \<^verbatim>\<open>input_curl_easy_init\<close> sets for this stream under \<open>plain_env\<close>.\<close>

definition plain_handle :: CURL where
  "plain_handle =
     [(CURLOPT_USERAGENT, Str ''Music Player Daemon 0.18''),
      (CURLOPT_HEADERFUNCTION, HeaderFunction),
      (CURLOPT_WRITEHEADER, StreamPointer),
      (CURLOPT_WRITEFUNCTION, WriteFunction),
      (CURLOPT_WRITEDATA, StreamPointer),
      (CURLOPT_HTTP200ALIASES, Slist [''ICY 200 OK'']),
      (CURLOPT_FOLLOWLOCATION, Num 1),
      (CURLOPT_NETRC, Num 1),
      (CURLOPT_MAXREDIRS, Num 5),
      (CURLOPT_FAILONERROR, Num 1),
      (CURLOPT_ERRORBUFFER, ErrorBuffer),
      (CURLOPT_NOPROGRESS, Num 1),
      (CURLOPT_NOSIGNAL, Num 1),
      (CURLOPT_CONNECTTIMEOUT, Num 10),
      (CURLOPT_URL, Str ''http://host/file''),
      (CURLOPT_HTTPHEADER, Slist [''Icy-Metadata: 1''])]"

text \<open>The same stream, had the server not announced its length.\<close>

definition unsized_stream :: input_curl where
  "unsized_stream = finished_stream\<lparr>base_size := - 1\<rparr>"

text \<open>Header lines as libcurl passes them, each ending in CR LF.\<close>

definition accept_ranges_line :: string where
  "accept_ranges_line = ''Accept-Ranges: bytes'' @ [CHR 0x0D, CHR 0x0A]"

definition icy_metaint_line :: string where
  "icy_metaint_line = ''icy-metaint: 8192'' @ [CHR 0x0D, CHR 0x0A]"

definition status_line :: string where
  "status_line = ''HTTP/1.1 200 OK'' @ [CHR 0x0D, CHR 0x0A]"

definition content_length_line :: string where
  "content_length_line = ''Content-Length: 10'' @ [CHR 0x0D, CHR 0x0A]"

text \<open>A Content-Length line of 79 bytes, with 60 spaces before its value.\<close>

definition padded_length_line :: string where
  "padded_length_line =
     ''Content-Length:''
     @ ''                                                            ''
     @ ''10'' @ [CHR 0x0D, CHR 0x0A]"

text \<open>
  An \<^verbatim>\<open>icy-metaint\<close> line of 78 bytes, with 60 spaces before its value: the value ends at
  byte 76 of the line.
\<close>

definition padded_metaint_line :: string where
  "padded_metaint_line =
     ''icy-metaint:''
     @ ''                                                            ''
     @ ''8192'' @ [CHR 0x0D, CHR 0x0A]"

text \<open>The finished stream with a postponed error that no call has collected yet.\<close>

definition failed_stream :: input_curl where
  "failed_stream = finished_stream\<lparr>postponed_error := Some (GError 0 ''got HTTP status 404'')\<rparr>"

subsection \<open>Notions used in the statements\<close>

text \<open>The bytes held by a queue of chunks, consumed or not.\<close>

definition queue_size :: "CurlInputBuffer list \<Rightarrow> nat" where
  "queue_size bs = sum_list (map size_b bs)"

text \<open>The front chunk after a step is the chunk before it, or is gone.\<close>

definition same_size :: "CurlInputBuffer \<Rightarrow> CurlInputBuffer option \<Rightarrow> bool" where
  "same_size b front = (case front of None \<Rightarrow> True | Some b' \<Rightarrow> size_b b' = size_b b)"

text \<open>A chunk holds its payload: its \<open>data\<close> has the \<open>size_b\<close> bytes that the constructor copied.\<close>

definition holds_payload :: "CurlInputBuffer \<Rightarrow> bool" where
  "holds_payload b = (size_b b \<le> length (data b))"

text \<open>
  In a state or a result of the loop of \<^verbatim>\<open>read_from_buffer\<close>, \<open>nbytes\<close> counts the bytes
  copied to the destination.
\<close>

definition counted :: "rfb_state \<Rightarrow> bool" where
  "counted st = (case st of (i, b, d, l, n) \<Rightarrow> holds_payload b \<and> length d = n)"

definition counted_result :: "rfb_result \<Rightarrow> bool" where
  "counted_result r = (case r of (n, d, i, fr) \<Rightarrow>
     length d = n \<and> (case fr of None \<Rightarrow> True | Some b \<Rightarrow> holds_payload b))"

text \<open>
  A header line \<^verbatim>\<open>name: value\<close> as libcurl passes it: the name, the colon, white space,
  the value, and trailing white space (the CR LF).
\<close>

definition header_line :: "string \<Rightarrow> string \<Rightarrow> string \<Rightarrow> string \<Rightarrow> string" where
  "header_line name pad v trail = name @ [CHR '':''] @ pad @ v @ trail"

text \<open>
  Modelled from the spec: the framing of an ICY stream, byte by byte (section 4.1).  After
  \<open>stride\<close> audio bytes comes one length byte \<open>L\<close>, then \<open>16 * L\<close> metadata bytes, repeating.
  \<open>icy_next k m b\<close> is the state after the byte \<open>b\<close> has arrived in state \<open>m\<close> of a parser with
  stride \<open>k\<close>; a byte is an audio byte if it arrives in a state \<open>InRun\<close>, and a metadata byte
  (the length byte or a byte of the block) otherwise.
\<close>

fun icy_next :: "nat \<Rightarrow> icy_mode \<Rightarrow> char \<Rightarrow> icy_mode" where
  "icy_next k (InRun rest) b = (if rest - 1 = 0 then InLength else InRun (rest - 1))"
| "icy_next k InLength b =
     (if (of_char b :: nat) = 0 then InRun k else InMeta (16 * of_char b))"
| "icy_next k (InMeta rest) b = (if rest - 1 = 0 then InRun k else InMeta (rest - 1))"

text \<open>Modelled from the spec: whether a byte that arrives in this state is an audio byte.\<close>

fun in_run :: "icy_mode \<Rightarrow> bool" where
  "in_run (InRun rest) = True"
| "in_run InLength = False"
| "in_run (InMeta rest) = False"

text \<open>Modelled from the spec: the audio bytes among \<open>bs\<close>, in their order.\<close>

fun icy_audio :: "nat \<Rightarrow> icy_mode \<Rightarrow> string \<Rightarrow> string" where
  "icy_audio k m [] = []"
| "icy_audio k m (b # bs) =
     (if in_run m then b # icy_audio k (icy_next k m b) bs
      else icy_audio k (icy_next k m b) bs)"

text \<open>Modelled from the spec: the metadata bytes among \<open>bs\<close>, in their order.\<close>

fun icy_metadata :: "nat \<Rightarrow> icy_mode \<Rightarrow> string \<Rightarrow> string" where
  "icy_metadata k m [] = []"
| "icy_metadata k m (b # bs) =
     (if in_run m then icy_metadata k (icy_next k m b) bs
      else b # icy_metadata k (icy_next k m b) bs)"

text \<open>
  Modelled from the spec: the audio bytes among the bytes \<open>bs\<close> that arrive at the parser
  \<open>p\<close>.  For a parser that is not active every byte is an audio byte.
\<close>

definition audio_bytes :: "IcyMetaDataParser \<Rightarrow> string \<Rightarrow> string" where
  "audio_bytes p bs = (if IsDefined p then icy_audio (stride p) (mode p) bs else bs)"

text \<open>Modelled from the spec: the metadata bytes among the bytes \<open>bs\<close> that arrive at \<open>p\<close>.\<close>

definition metadata_bytes :: "IcyMetaDataParser \<Rightarrow> string \<Rightarrow> string" where
  "metadata_bytes p bs = (if IsDefined p then icy_metadata (stride p) (mode p) bs else [])"

text \<open>
  Modelled from the spec: an active parser is inside a frame, with bytes left in the run or
  in the block that it is in, as it is after \<open>Start\<close> and after every call of \<open>Data\<close> and \<open>Meta\<close>.
\<close>

definition in_frame :: "IcyMetaDataParser \<Rightarrow> bool" where
  "in_frame p =
     (IsDefined p \<longrightarrow>
        (case mode p of InRun rest \<Rightarrow> 0 < rest | InLength \<Rightarrow> True | InMeta rest \<Rightarrow> 0 < rest))"

text \<open>
  The parser \<open>p'\<close> is the parser \<open>p\<close> after the bytes \<open>taken\<close>, as far as the framing goes.
\<close>

definition follows :: "IcyMetaDataParser \<Rightarrow> string \<Rightarrow> IcyMetaDataParser \<Rightarrow> bool" where
  "follows p taken p' =
     (stride p' = stride p \<and> in_frame p'
      \<and> (IsDefined p \<longrightarrow> mode p' = foldl (icy_next (stride p)) (mode p) taken))"

text \<open>
  The bytes of a chunk that have not been consumed, and those of a queue, in the order in
  which the server has sent them.
\<close>

definition unread :: "CurlInputBuffer \<Rightarrow> string" where
  "unread b = take (Available b) (Begin b)"

definition pending :: "CurlInputBuffer list \<Rightarrow> string" where
  "pending bufs = concat (map unread bufs)"

text \<open>
  From the parser \<open>p\<close> and the unread bytes \<open>pend\<close> to the parser \<open>p'\<close> and the unread bytes
  \<open>pend'\<close>, the bytes \<open>bytes\<close> have been handed over: some bytes \<open>taken\<close> have left the front of
  \<open>pend\<close>, and \<open>bytes\<close> are the audio bytes among them.
\<close>

definition hands_over ::
  "IcyMetaDataParser \<Rightarrow> string \<Rightarrow> IcyMetaDataParser \<Rightarrow> string \<Rightarrow> string \<Rightarrow> bool" where
  "hands_over p pend p' pend' bytes =
     (\<exists>taken. pend = taken @ pend' \<and> bytes = audio_bytes p taken \<and> follows p taken p')"

text \<open>The same for a state and a result of the loop of \<^verbatim>\<open>read_from_buffer\<close>.\<close>

definition front_bytes :: "CurlInputBuffer option \<Rightarrow> string" where
  "front_bytes front = (case front of None \<Rightarrow> [] | Some b \<Rightarrow> unread b)"

definition front_payload :: "CurlInputBuffer option \<Rightarrow> bool" where
  "front_payload front = (case front of None \<Rightarrow> True | Some b \<Rightarrow> holds_payload b)"

definition sound :: "rfb_state \<Rightarrow> bool" where
  "sound st = (case st of (p, b, d, len, n) \<Rightarrow> holds_payload b \<and> in_frame p)"

definition handed ::
  "rfb_state \<Rightarrow> IcyMetaDataParser \<Rightarrow> string \<Rightarrow> CurlInputBuffer option \<Rightarrow> bool" where
  "handed st p' d' front =
     (case st of (p, b, d, len, n) \<Rightarrow>
        front_payload front
        \<and> (\<exists>bytes. d' = d @ bytes \<and> hands_over p (unread b) p' (front_bytes front) bytes))"

text \<open>
  A stream is well formed if its parser is inside a frame and its chunks hold their
  payload.  The stream that \<^verbatim>\<open>input_curl_open\<close> returns is, with its inactive parser and its
  empty queue.
\<close>

definition well_formed :: "input_curl \<Rightarrow> bool" where
  "well_formed c = (in_frame (icy c) \<and> list_all holds_payload (buffers c))"

text \<open>
  A write carries its bytes: libcurl passes \<open>size * nmemb\<close> bytes at \<open>ptr\<close> to the write
  callback.
\<close>

definition carries :: "event \<Rightarrow> bool" where
  "carries e = (case e of WriteData ptr size0 nmemb \<Rightarrow> size0 * nmemb \<le> length ptr | _ \<Rightarrow> True)"

section \<open>Properties\<close>

subsection \<open>The timeout handed to the event loop\<close>





subsection \<open>Evaluating the model\<close>

lemmas stream_defs =
  input_curl_new_def IcyMetaDataParser_new_def CurlInputBuffer_new_def
  live_stream_def nearly_full_stream_def paused_stream_def plain_env_def finished_stream_def
  plain_handle_def unsized_stream_def

lemmas buffer_defs =
  Begin_def TotalSize_def Available_def Consume_def Read_def

lemmas icy_defs =
  IsDefined_def Start_def Data_def Meta_def meta_block_def ReadTag_def

lemmas read_defs =
  input_curl_read_def input_curl_read_loop.simps send_buffer_contents.simps
  read_from_buffer_def read_from_buffer_loop.simps read_from_buffer_data_def
  read_from_buffer_meta_def fill_buffer_def copy_icy_tag_def input_curl_resume_def
  curl_total_buffer_size_def CURL_RESUME_AT_def CURL_MAX_BUFFERED_def

subsection \<open>The size of the queue\<close>

lemma total_foldl:
  "foldl (\<lambda>total i. total + TotalSize i) n bs = n + sum_list (map size_b bs)"
  by (induction bs arbitrary: n) (simp_all add: TotalSize_def)

lemma curl_total_buffer_size_sum:
  "curl_total_buffer_size c = sum_list (map size_b (buffers c))"
  by (simp add: curl_total_buffer_size_def total_foldl)

lemma total_queue_size: "curl_total_buffer_size c = queue_size (buffers c)"
  by (simp add: curl_total_buffer_size_sum queue_size_def)

subsection \<open>Opening\<close>

lemma of_char_nat_zero: "((of_char a :: nat) = 0) = (a = CHR 0x00)"
proof
  assume "(of_char a :: nat) = 0"
  then have "(of_char a :: nat) = of_char (CHR 0x00)" by simp
  then show "a = CHR 0x00" by (simp only: of_char_eq_iff)
next
  assume "a = CHR 0x00"
  then show "(of_char a :: nat) = 0" by simp
qed

lemma strncmp_prefix:
  "CHR 0x00 \<notin> set t \<Longrightarrow> (strncmp s t (length t) = 0) = prefix t s"
proof (induction t arbitrary: s)
  case Nil
  then show ?case by simp
next
  case (Cons b t)
  show ?case
  proof (cases s)
    case Nil
    with Cons.prems show ?thesis by (auto simp: of_char_nat_zero)
  next
    case (Cons a s')
    with Cons.prems Cons.IH [of s'] show ?thesis by auto
  qed
qed

lemma strncmp_http: "(strncmp url ''http://'' 7 = 0) = prefix ''http://'' url"
  using strncmp_prefix [of "''http://''" url] by (simp add: eval_nat_numeral)

text \<open>
  C8.  For every URI that does not begin with \<^verbatim>\<open>http://\<close>, \<^verbatim>\<open>input_curl_open\<close> returns
  \<^verbatim>\<open>NULL\<close> with no error set: no stream is created and no call is shipped to the I/O
  thread.
\<close>

theorem input_curl_open_not_mine:
  "\<not> prefix ''http://'' url \<Longrightarrow> input_curl_open env url = Inr (None, None, [])"
  by (simp add: input_curl_open_def strncmp_http)

theorem input_curl_open_not_mine_witness:
  "input_curl_open plain_env ''ftp://x'' = Inr (None, None, [])"
  using input_curl_open_not_mine [of "''ftp://x''" plain_env] by simp

subsection \<open>Pausing and resuming\<close>

text \<open>
  C2, as stated, fails in its first half.  On a stream that holds 507904 bytes, a write of
  16384 bytes sets the paused flag and is not stored, and the queue holds fewer than
  \<open>CURL_MAX_BUFFERED\<close> bytes at that moment.
\<close>

theorem pause_below_max_counterexample:
  "\<not> paused nearly_full_stream
   \<and> paused (fst (input_curl_writefunction (replicate 16384 (CHR ''a'')) 1 16384
                   nearly_full_stream))
   \<and> curl_total_buffer_size
        (fst (input_curl_writefunction (replicate 16384 (CHR ''a'')) 1 16384
                nearly_full_stream)) = 507904
   \<and> \<not> CURL_MAX_BUFFERED \<le> curl_total_buffer_size
        (fst (input_curl_writefunction (replicate 16384 (CHR ''a'')) 1 16384
                nearly_full_stream))"
  by (simp add: Let_def input_curl_writefunction_def curl_total_buffer_size_sum stream_defs
        CURL_MAX_BUFFERED_def sum_list_replicate)

text \<open>
  C2, amended.  When the write callback sets the paused flag (it then returns
  \<open>CURL_WRITEFUNC_PAUSE\<close> and stores nothing), the bytes in the queue plus the bytes of the
  incoming write are at least \<open>CURL_MAX_BUFFERED\<close>; and when a call of \<^verbatim>\<open>input_curl_read\<close>
  ships a resume to the I/O thread, the queue holds fewer than \<open>CURL_RESUME_AT\<close> bytes.
\<close>

theorem pause_and_resume_thresholds:
  "(input_curl_writefunction ptr size0 nmemb c = (c', r) \<longrightarrow> r = CURL_WRITEFUNC_PAUSE \<longrightarrow>
      paused c' \<and> buffers c' = buffers c
      \<and> CURL_MAX_BUFFERED \<le> curl_total_buffer_size c + size0 * nmemb)
   \<and> (input_curl_read d sz = Some (Inr (res, d', calls)) \<longrightarrow>
        input_curl_resume_call \<in> set calls \<longrightarrow>
        curl_total_buffer_size d' < CURL_RESUME_AT \<and> \<not> paused d')"
proof (intro conjI impI)
  assume w: "input_curl_writefunction ptr size0 nmemb c = (c', r)"
    and p: "r = CURL_WRITEFUNC_PAUSE"
  then have branch: "size0 * nmemb \<noteq> 0 \<and> CURL_MAX_BUFFERED \<le> curl_total_buffer_size c + size0 * nmemb"
    by (auto simp: input_curl_writefunction_def Let_def CURL_WRITEFUNC_PAUSE_def
          CURL_MAX_BUFFERED_def split: if_splits)
  with w show "paused c'" and "buffers c' = buffers c"
    by (auto simp: input_curl_writefunction_def Let_def)
  from branch show "CURL_MAX_BUFFERED \<le> curl_total_buffer_size c + size0 * nmemb"
    by simp
next
  assume "input_curl_read d sz = Some (Inr (res, d', calls))"
    and "input_curl_resume_call \<in> set calls"
  then show "curl_total_buffer_size d' < CURL_RESUME_AT" and "\<not> paused d'"
    by (auto simp: input_curl_read_def Let_def input_curl_resume_def curl_total_buffer_size_def
          split: option.splits sum.splits prod.splits blocking.splits if_splits)
qed

lemma read_paused_stream:
  "input_curl_read paused_stream 4 =
     Some (Inr (Done (4, ''0123'', None),
                paused_stream\<lparr>paused := False, offset := 4,
                  buffers := [\<lparr>size_b = 10, consumed = 4, data = ''0123456789''\<rparr>]\<rparr>,
                [input_curl_resume_call]))"
  by (simp add: stream_defs read_defs buffer_defs icy_defs)

theorem pause_and_resume_thresholds_witness:
  "CURL_MAX_BUFFERED \<le> curl_total_buffer_size nearly_full_stream + 1 * 16384
   \<and> curl_total_buffer_size
        (paused_stream\<lparr>paused := False, offset := 4,
           buffers := [\<lparr>size_b = 10, consumed = 4, data = ''0123456789''\<rparr>]\<rparr>) < CURL_RESUME_AT"
proof -
  have w: "input_curl_writefunction (replicate 16384 (CHR ''a'')) 1 16384 nearly_full_stream
             = (nearly_full_stream\<lparr>paused := True\<rparr>, CURL_WRITEFUNC_PAUSE)"
    by (simp add: Let_def input_curl_writefunction_def curl_total_buffer_size_sum stream_defs
          CURL_MAX_BUFFERED_def sum_list_replicate)
  have r: "input_curl_resume_call \<in> set [input_curl_resume_call]"
    by simp
  from pause_and_resume_thresholds
         [of "replicate 16384 (CHR ''a'')" 1 16384 nearly_full_stream
             "nearly_full_stream\<lparr>paused := True\<rparr>" CURL_WRITEFUNC_PAUSE
             paused_stream 4 "Done (4, ''0123'', None)"
             "paused_stream\<lparr>paused := False, offset := 4,
                buffers := [\<lparr>size_b = 10, consumed = 4, data = ''0123456789''\<rparr>]\<rparr>"
             "[input_curl_resume_call]"]
       w read_paused_stream r
  show ?thesis by blast
qed

subsection \<open>What a call leaves unchanged\<close>

lemma read_loop_frame:
  "input_curl_read_loop c dest nbytes sz = Some y \<Longrightarrow>
   (\<forall>r c1. y = Inr (r, c1) \<longrightarrow>
           offset c1 = offset c \<and> easy c1 = easy c \<and> paused c1 = paused c
           \<and> seekable c1 = seekable c \<and> ready c1 = ready c \<and> base_size c1 = base_size c)"
proof (induction rule: input_curl_read_loop.raw_induct [rotated, consumes 1, case_names step])
  case (step loop c dest nbytes sz y)
  then show ?case
    by (fastforce simp: fill_buffer_def
          split: if_splits option.splits sum.splits prod.splits blocking.splits)
qed

lemma copy_icy_tag_frame:
  "offset (copy_icy_tag c) = offset c \<and> easy (copy_icy_tag c) = easy c
   \<and> paused (copy_icy_tag c) = paused c \<and> buffers (copy_icy_tag c) = buffers c
   \<and> seekable (copy_icy_tag c) = seekable c \<and> ready (copy_icy_tag c) = ready c"
  by (simp add: copy_icy_tag_def split: prod.splits option.splits)

lemma read_offset:
  assumes "input_curl_read c sz = Some (Inr (r, c', calls))"
  shows "offset c' = offset c
           + word_of_nat (case r of Waiting \<Rightarrow> 0 | Done (nbytes, dest, err) \<Rightarrow> nbytes)"
  using assms read_loop_frame [of c "[]" 0 sz]
  by (auto simp: input_curl_read_def Let_def input_curl_resume_def copy_icy_tag_frame
        split: option.splits sum.splits prod.splits blocking.splits if_splits)

lemma headerfunction_frame:
  "input_curl_headerfunction ptr size0 nmemb c = Inr c' \<Longrightarrow>
     offset c' = offset c \<and> easy c' = easy c \<and> buffers c' = buffers c \<and> paused c' = paused c"
  by (auto simp: input_curl_headerfunction_def Let_def
        split: option.splits sum.splits if_splits)

lemma writefunction_frame:
  "offset (fst (input_curl_writefunction ptr size0 nmemb c)) = offset c
   \<and> easy (fst (input_curl_writefunction ptr size0 nmemb c)) = easy c"
  by (simp add: input_curl_writefunction_def Let_def)

lemma handle_done_frame:
  "input_curl_handle_done c result status = Inr c' \<Longrightarrow>
     offset c' = offset c \<and> easy c' = None \<and> buffers c' = buffers c \<and> paused c' = paused c"
  by (auto simp: input_curl_handle_done_def input_curl_request_done_def
        input_curl_easy_free_def Let_def split: if_splits)

lemma abort_frame:
  "input_curl_abort_all_requests err c = Inr c' \<Longrightarrow>
     offset c' = offset c \<and> easy c' = None \<and> buffers c' = buffers c \<and> paused c' = paused c"
  by (auto simp: input_curl_abort_all_requests_def input_curl_easy_free_def split: if_splits)

subsection \<open>The offset counts the bytes returned\<close>

lemma step_offset:
  assumes "step e c = Some (k, c')" and "\<not> is_seek e"
  shows "offset c' = offset c + word_of_nat k"
proof (cases e)
  case (HeaderLine ptr size0 nmemb)
  with assms show ?thesis
    by (auto split: if_splits sum.splits dest: headerfunction_frame)
next
  case (WriteData ptr size0 nmemb)
  with assms show ?thesis
    by (auto split: if_splits simp: writefunction_frame)
next
  case (TransferDone result status msg)
  with assms show ?thesis
    by (auto split: if_splits sum.splits dest: handle_done_frame)
next
  case (AbortAll err)
  with assms show ?thesis
    by (auto split: sum.splits dest: abort_frame)
next
  case (ReadCall sz)
  with assms show ?thesis
    by (auto split: option.splits sum.splits blocking.splits dest: read_offset)
next
  case (SeekCall env offset0 whence)
  with assms show ?thesis
    by (simp add: is_seek_def)
next
  case SeekWake
  with assms show ?thesis
    by (auto simp: input_curl_seek_wait_def split: if_splits)
next
  case CheckCall
  with assms show ?thesis
    by (auto simp: input_curl_check_def Let_def split: if_splits)
next
  case TagCall
  with assms show ?thesis
    by (auto simp: input_curl_tag_def)
qed

lemma run_offset:
  "run evs (n, c) = Some (n', c') \<Longrightarrow> \<forall>e \<in> set evs. \<not> is_seek e \<Longrightarrow>
     offset c' + word_of_nat n = offset c + word_of_nat n'"
proof (induction evs arbitrary: n c)
  case Nil
  then show ?case by simp
next
  case (Cons e evs)
  from Cons.prems(1) obtain k c1 where s: "step e c = Some (k, c1)"
    and r: "run evs (n + k, c1) = Some (n', c')"
    by (auto split: option.splits)
  from Cons.prems(2) have ne: "\<not> is_seek e" and rest: "\<forall>e \<in> set evs. \<not> is_seek e"
    by simp_all
  from Cons.IH [OF r rest] have "offset c' + word_of_nat (n + k) = offset c1 + word_of_nat n'" .
  moreover from step_offset [OF s ne] have "offset c1 = offset c + word_of_nat k" .
  ultimately show ?case by simp
qed

subsection \<open>The bytes returned are the bytes delivered\<close>

lemma Consume_payload:
  "Consume b len = Inr (r, b') \<Longrightarrow> holds_payload b \<Longrightarrow> holds_payload b'"
  by (auto simp: Consume_def Let_def holds_payload_def split: if_splits)

lemma Read_payload:
  "Read b len = Inr (r, bytes, b') \<Longrightarrow> holds_payload b \<Longrightarrow>
     length bytes = len \<and> holds_payload b'"
  by (auto simp: Read_def Begin_def holds_payload_def Consume_def Let_def split: if_splits sum.splits)

lemma rfb_data_counted:
  "read_from_buffer_data st = Inr s \<Longrightarrow> counted st \<Longrightarrow>
     (case s of Break r \<Rightarrow> counted_result r | Continue st' \<Rightarrow> counted st')"
  by (auto simp: read_from_buffer_data_def counted_def counted_result_def
        split: prod.splits if_splits sum.splits dest: Read_payload)

lemma rfb_meta_counted:
  "read_from_buffer_meta st = Inr s \<Longrightarrow> counted st \<Longrightarrow>
     (case s of Break r \<Rightarrow> counted_result r | Continue st' \<Rightarrow> counted st')"
  by (auto simp: read_from_buffer_meta_def counted_def counted_result_def
        split: prod.splits if_splits sum.splits dest: Consume_payload)

lemma rfb_loop_counted:
  "read_from_buffer_loop st = Some y \<Longrightarrow> counted st \<longrightarrow> (\<forall>r. y = Inr r \<longrightarrow> counted_result r)"
proof (induction rule: read_from_buffer_loop.raw_induct [rotated, consumes 1, case_names step])
  case (step loop st y)
  show ?case
  proof (intro impI allI)
    fix r
    assume c: "counted st" and y: "y = Inr r"
    show "counted_result r"
    proof (cases "read_from_buffer_data st")
      case (Inl e)
      with step(2) y show ?thesis by auto
    next
      case (Inr s1)
      note data = this
      show ?thesis
      proof (cases s1)
        case (Break r1)
        with data step(2) y rfb_data_counted [OF data c] show ?thesis by auto
      next
        case (Continue st1)
        with rfb_data_counted [OF data c] have c1: "counted st1" by simp
        show ?thesis
        proof (cases "read_from_buffer_meta st1")
          case (Inl e)
          with data Continue step(2) y show ?thesis by auto
        next
          case (Inr s2)
          note meta = this
          show ?thesis
          proof (cases s2)
            case (Break r2)
            with meta data \<open>s1 = Continue st1\<close> step(2) y rfb_meta_counted [OF meta c1]
            show ?thesis by auto
          next
            case (Continue st2)
            with rfb_meta_counted [OF meta c1] have c2: "counted st2" by simp
            from meta data Continue \<open>s1 = Continue st1\<close> step(2) have "loop st2 = Some y"
              by simp
            from step(1) [OF this] c2 y show ?thesis by blast
          qed
        qed
      qed
    qed
  qed
qed

lemma read_from_buffer_counted:
  assumes "read_from_buffer i bufs len = Some (Inr (n, d, i', bufs'))"
    and "list_all holds_payload bufs"
  shows "length d = n \<and> list_all holds_payload bufs'"
proof (cases bufs)
  case Nil
  with assms show ?thesis by (simp add: read_from_buffer_def)
next
  case (Cons b rest)
  let ?len = "if len > Available b then Available b else len"
  from assms(1) Cons obtain fr where
    loop: "read_from_buffer_loop (i, b, [], ?len, 0) = Some (Inr (n, d, i', fr))"
    and bufs': "bufs' = (case fr of None \<Rightarrow> rest | Some b' \<Rightarrow> b' # rest)"
    by (auto simp: read_from_buffer_def Let_def split: option.splits sum.splits)
  from assms(2) Cons have "counted (i, b, [], ?len, 0)"
    by (simp add: counted_def)
  with rfb_loop_counted [OF loop] have "counted_result (n, d, i', fr)" by blast
  with bufs' assms(2) Cons show ?thesis
    by (auto simp: counted_result_def split: option.splits)
qed

lemma send_buffer_contents_counted:
  "send_buffer_contents i bufs d n sz = Some y \<Longrightarrow>
     length d = n \<and> list_all holds_payload bufs \<longrightarrow>
     (\<forall>i' bufs' d' n' sz'. y = Inr (i', bufs', d', n', sz') \<longrightarrow>
        length d' = n' \<and> list_all holds_payload bufs')"
proof (induction rule: send_buffer_contents.raw_induct [rotated, consumes 1, case_names step])
  case (step send i bufs d n sz y)
  show ?case
  proof (intro impI)
    assume pre: "length d = n \<and> list_all holds_payload bufs"
    show "\<forall>i' bufs' d' n' sz'. y = Inr (i', bufs', d', n', sz') \<longrightarrow>
            length d' = n' \<and> list_all holds_payload bufs'"
    proof (cases "sz > 0 \<and> bufs \<noteq> []")
      case False
      with step(2) pre show ?thesis by auto
    next
      case True
      show ?thesis
      proof (cases "read_from_buffer i bufs sz")
        case None
        with True step(2) show ?thesis by simp
      next
        case (Some r)
        show ?thesis
        proof (cases r)
          case (Inl e)
          with Some True step(2) show ?thesis by auto
        next
          case (Inr t)
          obtain copy bytes i1 bufs1 where t: "t = (copy, bytes, i1, bufs1)" by (cases t) auto
          with Some Inr True step(2)
          have rec: "send i1 bufs1 (d @ bytes) (n + copy) (sz - copy) = Some y"
            by simp
          from Some Inr t have "read_from_buffer i bufs sz = Some (Inr (copy, bytes, i1, bufs1))"
            by simp
          from read_from_buffer_counted [OF this] pre
          have "length (d @ bytes) = n + copy \<and> list_all holds_payload bufs1"
            by simp
          with step(1) [OF rec] show ?thesis by blast
        qed
      qed
    qed
  qed
qed

lemma read_loop_counted:
  "input_curl_read_loop c dest nbytes sz = Some y \<Longrightarrow>
   length dest = nbytes \<and> list_all holds_payload (buffers c) \<longrightarrow>
   (\<forall>success err dest' nbytes' c1. y = Inr (Done (success, err, dest', nbytes'), c1) \<longrightarrow>
      length dest' = nbytes')"
proof (induction rule: input_curl_read_loop.raw_induct [rotated, consumes 1, case_names step])
  case (step loop c dest nbytes sz y)
  show ?case
  proof (intro impI)
    assume pre: "length dest = nbytes \<and> list_all holds_payload (buffers c)"
    show "\<forall>success err dest' nbytes' c1. y = Inr (Done (success, err, dest', nbytes'), c1) \<longrightarrow>
            length dest' = nbytes'"
    proof (cases "fill_buffer c")
      case (Pair w c1)
      then have c1: "buffers c1 = buffers c"
        by (auto simp: fill_buffer_def split: if_splits)
      show ?thesis
      proof (cases w)
        case Waiting
        with Pair step(2) show ?thesis by auto
      next
        case (Done res)
        obtain success err where res: "res = (success, err)" by (cases res) auto
        show ?thesis
        proof (cases success)
          case False
          with Pair Done res step(2) pre show ?thesis by auto
        next
          case True
          show ?thesis
          proof (cases "send_buffer_contents (icy c1) (buffers c1) dest nbytes sz")
            case None
            with Pair Done res True step(2) show ?thesis by simp
          next
            case (Some s)
            show ?thesis
            proof (cases s)
              case (Inl e)
              with Some Pair Done res True step(2) show ?thesis by auto
            next
              case (Inr t)
              obtain icy2 bufs2 dest2 nbytes2 sz2 where t: "t = (icy2, bufs2, dest2, nbytes2, sz2)"
                by (cases t) auto
              from send_buffer_contents_counted [OF Some] Inr t c1 pre
              have post: "length dest2 = nbytes2 \<and> list_all holds_payload bufs2" by simp
              show ?thesis
              proof (cases "nbytes2 = 0")
                case True
                with Some Inr t Pair Done res \<open>success\<close> step(2)
                have "loop (c1\<lparr>icy := icy2, buffers := bufs2\<rparr>) dest2 nbytes2 sz2 = Some y"
                  by simp
                from step(1) [OF this] post show ?thesis by simp
              next
                case False
                with Some Inr t Pair Done res \<open>success\<close> step(2) post show ?thesis by auto
              qed
            qed
          qed
        qed
      qed
    qed
  qed
qed

lemma read_counted:
  assumes "input_curl_read c sz = Some (Inr (Done (nbytes, dest, err), c', calls))"
    and "list_all holds_payload (buffers c)"
  shows "length dest = nbytes"
proof -
  from assms(1) obtain y where loop: "input_curl_read_loop c [] 0 sz = Some y"
    by (auto simp: input_curl_read_def split: option.splits)
  from read_loop_counted [OF loop] assms(2)
  have "\<forall>success err dest' nbytes' c1. y = Inr (Done (success, err, dest', nbytes'), c1) \<longrightarrow>
          length dest' = nbytes'"
    by simp
  with assms(1) loop show ?thesis
    by (auto simp: input_curl_read_def Let_def split: sum.splits prod.splits blocking.splits if_splits)
qed

subsection \<open>The bytes delivered are the audio bytes\<close>

text \<open>
  The framing splits a sequence of bytes into its audio bytes and its metadata bytes, and
  it does so piece by piece.
\<close>

lemma icy_audio_append:
  "icy_audio k m (xs @ ys) = icy_audio k m xs @ icy_audio k (foldl (icy_next k) m xs) ys"
  by (induction xs arbitrary: m) simp_all

lemma audio_metadata_length:
  "length (icy_audio k m bs) + length (icy_metadata k m bs) = length bs"
  by (induction bs arbitrary: m) simp_all

lemma audio_bytes_length:
  "length (audio_bytes p bs) + length (metadata_bytes p bs) = length bs"
  by (simp add: audio_bytes_def metadata_bytes_def audio_metadata_length)

lemma audio_bytes_append:
  "follows p xs p' \<Longrightarrow> audio_bytes p (xs @ ys) = audio_bytes p xs @ audio_bytes p' ys"
  by (simp add: audio_bytes_def follows_def IsDefined_def icy_audio_append)

lemma follows_refl: "in_frame p \<Longrightarrow> follows p [] p"
  by (simp add: follows_def)

lemma follows_trans:
  "follows p xs p' \<Longrightarrow> follows p' ys p'' \<Longrightarrow> follows p (xs @ ys) p''"
  by (simp add: follows_def IsDefined_def)

lemma hands_over_refl: "in_frame p \<Longrightarrow> hands_over p pend p pend []"
  unfolding hands_over_def
  by (rule exI [of _ "[]"]) (simp add: follows_refl audio_bytes_def)

lemma hands_over_trans:
  assumes "hands_over p pend p' pend' bytes" and "hands_over p' pend' p'' pend'' bytes'"
  shows "hands_over p pend p'' pend'' (bytes @ bytes')"
proof -
  from assms(1) obtain xs where xs: "pend = xs @ pend'" "bytes = audio_bytes p xs" "follows p xs p'"
    by (auto simp: hands_over_def)
  from assms(2) obtain ys where ys: "pend' = ys @ pend''" "bytes' = audio_bytes p' ys"
      "follows p' ys p''"
    by (auto simp: hands_over_def)
  show ?thesis
    unfolding hands_over_def
    using xs ys audio_bytes_append [OF xs(3), of ys] follows_trans [OF xs(3) ys(3)]
    by (intro exI [of _ "xs @ ys"]) simp
qed

lemma hands_over_suffix:
  "hands_over p pend p' pend' bytes \<Longrightarrow> hands_over p (pend @ s) p' (pend' @ s) bytes"
  by (auto simp: hands_over_def)

text \<open>A run of audio bytes, and a run of metadata bytes.\<close>

lemma run_of_audio:
  "0 < rest \<Longrightarrow> length xs \<le> rest \<Longrightarrow>
     icy_audio k (InRun rest) xs = xs
     \<and> foldl (icy_next k) (InRun rest) xs
         = (if rest - length xs = 0 then InLength else InRun (rest - length xs))"
proof (induction xs arbitrary: rest)
  case Nil
  then show ?case by simp
next
  case (Cons x xs)
  show ?case
  proof (cases "rest - 1 = 0")
    case True
    with Cons.prems have "xs = []" by (cases xs) auto
    with True show ?thesis by simp
  next
    case False
    with Cons.prems have "0 < rest - 1" "length xs \<le> rest - 1" by simp_all
    from Cons.IH [OF this] False show ?thesis by simp
  qed
qed

lemma run_of_metadata:
  "0 < rest \<Longrightarrow> length xs \<le> rest \<Longrightarrow>
     icy_audio k (InMeta rest) xs = []
     \<and> foldl (icy_next k) (InMeta rest) xs
         = (if rest - length xs = 0 then InRun k else InMeta (rest - length xs))"
proof (induction xs arbitrary: rest)
  case Nil
  then show ?case by simp
next
  case (Cons x xs)
  show ?case
  proof (cases "rest - 1 = 0")
    case True
    with Cons.prems have "xs = []" by (cases xs) auto
    with True show ?thesis by simp
  next
    case False
    with Cons.prems have "0 < rest - 1" "length xs \<le> rest - 1" by simp_all
    from Cons.IH [OF this] False show ?thesis by simp
  qed
qed

text \<open>
  \<open>Data\<close> announces a run of audio bytes and \<open>Meta\<close> consumes metadata bytes, and each
  leaves the parser where the framing is after these bytes.
\<close>

lemma Data_follows:
  assumes "Data p limit = (n, p')" and "in_frame p" and "n \<le> length buf"
  shows "follows p (take n buf) p' \<and> audio_bytes p (take n buf) = take n buf"
proof (cases "IsDefined p")
  case False
  with assms show ?thesis
    by (simp add: Data_def follows_def audio_bytes_def)
next
  case True
  show ?thesis
  proof (cases "mode p")
    case (InRun rest)
    with True assms(2) have rest: "0 < rest" by (simp add: in_frame_def)
    from InRun True assms(1) have n: "n = min rest limit"
      and p': "p' = p\<lparr>mode := (if rest - n = 0 then InLength else InRun (rest - n))\<rparr>"
      by (auto simp: Data_def Let_def)
    from n assms(3) have len: "length (take n buf) = n" "length (take n buf) \<le> rest"
      by simp_all
    from run_of_audio [OF rest len(2), of "stride p"] len(1) InRun True p' rest n
    show ?thesis
      by (auto simp: follows_def audio_bytes_def in_frame_def IsDefined_def)
  next
    case InLength
    with True assms show ?thesis
      by (auto simp: Data_def follows_def audio_bytes_def)
  next
    case (InMeta rest)
    with True assms show ?thesis
      by (auto simp: Data_def follows_def audio_bytes_def)
  qed
qed

lemma meta_block_follows:
  assumes "meta_block p rest buf limit = (n, p')" and "0 < rest" and "n \<le> length buf"
    and "0 < stride p"
  shows "stride p' = stride p \<and> in_frame p' \<and> n \<le> limit
         \<and> icy_audio (stride p) (InMeta rest) (take n buf) = []
         \<and> mode p' = foldl (icy_next (stride p)) (InMeta rest) (take n buf)"
proof -
  from assms(1) have n: "n = min rest limit"
    by (auto simp: meta_block_def Let_def split: if_splits)
  with assms(3) have len: "length (take n buf) = n" "length (take n buf) \<le> rest"
    by simp_all
  from assms(1) n have m: "mode p' = (if rest - n = 0 then InRun (stride p) else InMeta (rest - n))"
    and s: "stride p' = stride p"
    by (auto simp: meta_block_def Let_def split: if_splits)
  from run_of_metadata [OF assms(2) len(2), of "stride p"] len(1) m s assms(4) n
  show ?thesis
    by (auto simp: in_frame_def IsDefined_def)
qed

lemma Meta_follows:
  assumes "Meta p buf limit = (n, p')" and "in_frame p" and "n \<le> length buf"
  shows "follows p (take n buf) p' \<and> audio_bytes p (take n buf) = []"
proof (cases "IsDefined p")
  case False
  with assms show ?thesis
    by (simp add: Meta_def follows_def audio_bytes_def)
next
  case True
  then have k: "0 < stride p" by (simp add: IsDefined_def)
  show ?thesis
  proof (cases "mode p")
    case (InRun rest)
    with True assms show ?thesis
      by (auto simp: Meta_def follows_def audio_bytes_def)
  next
    case InLength
    show ?thesis
    proof (cases buf)
      case Nil
      with InLength True assms show ?thesis
        by (auto simp: Meta_def follows_def audio_bytes_def)
    next
      case (Cons l buf')
      show ?thesis
      proof (cases "limit = 0")
        case True
        with Cons InLength \<open>IsDefined p\<close> assms show ?thesis
          by (auto simp: Meta_def follows_def audio_bytes_def)
      next
        case False
        note limit = this
        show ?thesis
        proof (cases "(of_char l :: nat) = 0")
          case True
          with limit Cons InLength \<open>IsDefined p\<close> assms k show ?thesis
            by (auto simp: Meta_def follows_def audio_bytes_def in_frame_def IsDefined_def)
        next
          case False
          with limit Cons InLength \<open>IsDefined p\<close> assms(1) obtain n0 where
            mb: "meta_block (p\<lparr>meta_text := []\<rparr>) (16 * of_char l) buf' (limit - 1) = (n0, p')"
            and n: "n = n0 + 1"
            by (auto simp: Meta_def split: prod.splits)
          from n assms(3) Cons have "n0 \<le> length buf'" by simp
          from meta_block_follows [OF mb _ this] False k
          have "stride p' = stride p \<and> in_frame p'
                \<and> icy_audio (stride p) (InMeta (16 * of_char l)) (take n0 buf') = []
                \<and> mode p' = foldl (icy_next (stride p)) (InMeta (16 * of_char l)) (take n0 buf')"
            by simp
          with n Cons InLength \<open>IsDefined p\<close> False show ?thesis
            by (simp add: follows_def audio_bytes_def)
        qed
      qed
    qed
  next
    case (InMeta rest)
    with True assms(2) have rest: "0 < rest" by (simp add: in_frame_def)
    from InMeta True assms(1) have mb: "meta_block p rest buf limit = (n, p')"
      by (simp add: Meta_def)
    from meta_block_follows [OF mb rest assms(3) k] InMeta True
    show ?thesis
      by (simp add: follows_def audio_bytes_def)
  qed
qed

text \<open>
  The two halves of a pass of the loop of \<^verbatim>\<open>read_from_buffer\<close>: the first copies the audio
  bytes that \<open>Data\<close> announces and counts them, the second consumes the metadata bytes of
  \<open>Meta\<close> and neither copies nor counts them.
\<close>

lemma hands_over_in_frame: "hands_over p pend p' pend' bytes \<Longrightarrow> in_frame p'"
  by (auto simp: hands_over_def follows_def)

lemma handed_trans:
  assumes "handed (p, b, d, len, n) p1 d1 (Some b1)"
    and "handed (p1, b1, d1, len1, n1) p2 d2 front"
  shows "handed (p, b, d, len, n) p2 d2 front"
proof -
  from assms(1) obtain xs where xs: "d1 = d @ xs" "hands_over p (unread b) p1 (unread b1) xs"
    by (auto simp: handed_def front_bytes_def)
  from assms(2) obtain ys where ys: "d2 = d1 @ ys"
      "hands_over p1 (unread b1) p2 (front_bytes front) ys" and f: "front_payload front"
    by (auto simp: handed_def)
  from hands_over_trans [OF xs(2) ys(2)] xs(1) ys(1) f show ?thesis
    by (auto simp: handed_def)
qed

lemma Consume_unread:
  assumes "Consume b len = Inr (r, b')" and "holds_payload b"
  shows "len \<le> length (Begin b) \<and> unread b = take len (Begin b) @ unread b'
         \<and> holds_payload b' \<and> (\<not> r \<longrightarrow> unread b' = [])"
proof -
  from assms(1) have b': "b' = b\<lparr>consumed := consumed b + len\<rparr>"
    and le: "consumed b + len \<le> size_b b" and r: "r = (consumed b + len < size_b b)"
    by (auto simp: Consume_def Let_def split: if_splits)
  from le assms(2) have len: "len \<le> length (Begin b)"
    by (simp add: Begin_def holds_payload_def)
  have "take (size_b b - consumed b) (drop (consumed b) (data b))
          = take len (drop (consumed b) (data b))
            @ take (size_b b - consumed b - len) (drop len (drop (consumed b) (data b)))"
    using le take_add [of len "size_b b - consumed b - len" "drop (consumed b) (data b)"]
    by simp
  with b' le have "unread b = take len (Begin b) @ unread b'"
    by (simp add: unread_def Available_def Begin_def add.commute)
  with len b' r assms(2) show ?thesis
    by (auto simp: holds_payload_def unread_def Available_def)
qed

lemma Read_unread:
  assumes "Read b len = Inr (r, bytes, b')" and "holds_payload b"
  shows "bytes = take len (Begin b) \<and> len \<le> length (Begin b) \<and> unread b = bytes @ unread b'
         \<and> holds_payload b' \<and> (\<not> r \<longrightarrow> unread b' = [])"
proof -
  from assms(1) have c: "Consume b len = Inr (r, b')" and bytes: "bytes = take len (Begin b)"
    by (auto simp: Read_def split: if_splits sum.splits)
  from Consume_unread [OF c assms(2)] bytes show ?thesis by simp
qed

lemma rfb_data_handed:
  assumes "read_from_buffer_data st = Inr s" and "sound st"
  shows "case s of Break (n', d', p', front) \<Rightarrow> handed st p' d' front
         | Continue (p', b', d', len', n') \<Rightarrow> handed st p' d' (Some b')"
proof -
  obtain p b d len n where st: "st = (p, b, d, len, n)" by (cases st) auto
  with assms(2) have hp: "holds_payload b" and fr: "in_frame p" by (simp_all add: sound_def)
  obtain chunk p1 where data: "Data p len = (chunk, p1)" by (cases "Data p len") auto
  show ?thesis
  proof (cases "chunk > 0")
    case False
    from Data_follows [OF data fr, of "[]"] False have "follows p [] p1" by simp
    then have "hands_over p (unread b) p1 (unread b) []"
      unfolding hands_over_def by (intro exI [of _ "[]"]) (simp add: audio_bytes_def)
    with False assms(1) st data hp show ?thesis
      by (auto simp: read_from_buffer_data_def handed_def front_payload_def front_bytes_def)
  next
    case True
    with assms(1) st data obtain nonempty bytes b1 where
      rd: "Read b chunk = Inr (nonempty, bytes, b1)"
      by (auto simp: read_from_buffer_data_def split: sum.splits)
    from Read_unread [OF rd hp] have bytes: "bytes = take chunk (Begin b)"
      and le: "chunk \<le> length (Begin b)" and un: "unread b = bytes @ unread b1"
      and hp1: "holds_payload b1" and empty: "\<not> nonempty \<longrightarrow> unread b1 = []"
      by simp_all
    from Data_follows [OF data fr le] bytes
    have "follows p bytes p1" and "audio_bytes p bytes = bytes" by simp_all
    with un have h: "hands_over p (unread b) p1 (unread b1) bytes"
      by (auto simp: hands_over_def)
    with True assms(1) st data rd hp1 empty show ?thesis
      by (auto simp: read_from_buffer_data_def handed_def front_payload_def front_bytes_def
            split: if_splits)
  qed
qed

lemma rfb_meta_handed:
  assumes "read_from_buffer_meta st = Inr s" and "sound st"
  shows "case s of Break (n', d', p', front) \<Rightarrow> handed st p' d' front
         | Continue (p', b', d', len', n') \<Rightarrow> handed st p' d' (Some b')"
proof -
  obtain p b d len n where st: "st = (p, b, d, len, n)" by (cases st) auto
  with assms(2) have hp: "holds_payload b" and fr: "in_frame p" by (simp_all add: sound_def)
  obtain chunk p1 where meta: "Meta p (Begin b) len = (chunk, p1)"
    by (cases "Meta p (Begin b) len") auto
  show ?thesis
  proof (cases "chunk > 0")
    case False
    from Meta_follows [OF meta fr] False have "follows p [] p1" by simp
    then have "hands_over p (unread b) p1 (unread b) []"
      unfolding hands_over_def by (intro exI [of _ "[]"]) (simp add: audio_bytes_def)
    with False assms(1) st meta hp show ?thesis
      by (auto simp: read_from_buffer_meta_def handed_def front_payload_def front_bytes_def)
  next
    case True
    with assms(1) st meta obtain nonempty b1 where
      cs: "Consume b chunk = Inr (nonempty, b1)"
      by (auto simp: read_from_buffer_meta_def split: sum.splits)
    from Consume_unread [OF cs hp] have le: "chunk \<le> length (Begin b)"
      and un: "unread b = take chunk (Begin b) @ unread b1"
      and hp1: "holds_payload b1" and empty: "\<not> nonempty \<longrightarrow> unread b1 = []"
      by simp_all
    from Meta_follows [OF meta fr le]
    have "follows p (take chunk (Begin b)) p1" and "audio_bytes p (take chunk (Begin b)) = []"
      by simp_all
    with un have h: "hands_over p (unread b) p1 (unread b1) []"
      by (auto simp: hands_over_def)
    with True assms(1) st meta cs hp1 empty show ?thesis
      by (auto simp: read_from_buffer_meta_def handed_def front_payload_def front_bytes_def
            split: if_splits)
  qed
qed

lemma handed_sound:
  "handed st p' d' (Some b') \<Longrightarrow> sound (p', b', d', len', n')"
  by (auto simp: handed_def sound_def front_payload_def dest: hands_over_in_frame)

lemma rfb_loop_handed:
  "read_from_buffer_loop st = Some y \<Longrightarrow>
     sound st \<longrightarrow> (\<forall>n' d' p' front. y = Inr (n', d', p', front) \<longrightarrow> handed st p' d' front)"
proof (induction rule: read_from_buffer_loop.raw_induct [rotated, consumes 1, case_names step])
  case (step loop st y)
  show ?case
  proof (intro impI allI)
    fix n' d' p' front
    assume s: "sound st" and y: "y = Inr (n', d', p', front)"
    obtain p b d len n where st: "st = (p, b, d, len, n)" by (cases st) auto
    show "handed st p' d' front"
    proof (cases "read_from_buffer_data st")
      case (Inl e)
      with step(2) y show ?thesis by auto
    next
      case (Inr s1)
      note data = this
      show ?thesis
      proof (cases s1)
        case (Break r1)
        with data step(2) y rfb_data_handed [OF data s] show ?thesis by auto
      next
        case (Continue st1)
        obtain p1 b1 d1 len1 n1 where st1: "st1 = (p1, b1, d1, len1, n1)" by (cases st1) auto
        with Continue rfb_data_handed [OF data s] have h1: "handed st p1 d1 (Some b1)" by simp
        from handed_sound [OF this] st1 have s1: "sound st1" by simp
        show ?thesis
        proof (cases "read_from_buffer_meta st1")
          case (Inl e)
          with data Continue step(2) y show ?thesis by auto
        next
          case (Inr s2)
          note meta = this
          show ?thesis
          proof (cases s2)
            case (Break r2)
            with meta data \<open>s1 = Continue st1\<close> step(2) y have r2: "r2 = (n', d', p', front)"
              by auto
            with Break rfb_meta_handed [OF meta s1] have "handed st1 p' d' front" by simp
            with h1 st st1 show ?thesis by (auto intro: handed_trans)
          next
            case (Continue st2)
            obtain p2 b2 d2 len2 n2 where st2: "st2 = (p2, b2, d2, len2, n2)"
              by (cases st2) auto
            with Continue rfb_meta_handed [OF meta s1] have h2: "handed st1 p2 d2 (Some b2)"
              by simp
            from handed_sound [OF this] st2 have s2: "sound st2" by simp
            from meta data Continue \<open>s1 = Continue st1\<close> step(2) have "loop st2 = Some y"
              by simp
            from step(1) [OF this] s2 y have "handed st2 p' d' front" by blast
            with h2 st1 st2 have "handed st1 p' d' front" by (auto intro: handed_trans)
            with h1 st st1 show ?thesis by (auto intro: handed_trans)
          qed
        qed
      qed
    qed
  qed
qed

text \<open>The same for \<^verbatim>\<open>read_from_buffer\<close>, for the loops of \<^verbatim>\<open>input_curl_read\<close>, and for the call.\<close>

lemma read_from_buffer_hands_over:
  assumes "read_from_buffer p bufs len = Some (Inr (n, d, p', bufs'))"
    and "in_frame p" and "list_all holds_payload bufs"
  shows "hands_over p (pending bufs) p' (pending bufs') d \<and> list_all holds_payload bufs'"
proof (cases bufs)
  case Nil
  with assms show ?thesis by (simp add: read_from_buffer_def)
next
  case (Cons b rest)
  let ?len = "if len > Available b then Available b else len"
  from assms(1) Cons obtain fr where
    loop: "read_from_buffer_loop (p, b, [], ?len, 0) = Some (Inr (n, d, p', fr))"
    and bufs': "bufs' = (case fr of None \<Rightarrow> rest | Some b' \<Rightarrow> b' # rest)"
    by (auto simp: read_from_buffer_def Let_def split: option.splits sum.splits)
  from assms(2,3) Cons have "sound (p, b, [], ?len, 0)"
    by (simp add: sound_def)
  with rfb_loop_handed [OF loop] have "handed (p, b, [], ?len, 0) p' d fr" by blast
  then have h: "hands_over p (unread b) p' (front_bytes fr) d" and f: "front_payload fr"
    by (auto simp: handed_def)
  from hands_over_suffix [OF h, of "pending rest"] bufs' Cons
  have "hands_over p (pending bufs) p' (pending bufs') d"
    by (auto simp: pending_def front_bytes_def split: option.splits)
  with f bufs' assms(3) Cons show ?thesis
    by (auto simp: front_payload_def split: option.splits)
qed

lemma send_buffer_contents_hands_over:
  "send_buffer_contents p bufs d n sz = Some y \<Longrightarrow>
     in_frame p \<and> list_all holds_payload bufs \<longrightarrow>
     (\<forall>p' bufs' d' n' sz'. y = Inr (p', bufs', d', n', sz') \<longrightarrow>
        list_all holds_payload bufs'
        \<and> (\<exists>bytes. d' = d @ bytes \<and> hands_over p (pending bufs) p' (pending bufs') bytes))"
proof (induction rule: send_buffer_contents.raw_induct [rotated, consumes 1, case_names step])
  case (step send p bufs d n sz y)
  show ?case
  proof (intro impI allI)
    fix p' bufs' d' n' sz'
    assume pre: "in_frame p \<and> list_all holds_payload bufs"
      and y: "y = Inr (p', bufs', d', n', sz')"
    show "list_all holds_payload bufs'
          \<and> (\<exists>bytes. d' = d @ bytes \<and> hands_over p (pending bufs) p' (pending bufs') bytes)"
    proof (cases "sz > 0 \<and> bufs \<noteq> []")
      case False
      with step(2) y pre hands_over_refl [of p "pending bufs"] show ?thesis by auto
    next
      case True
      show ?thesis
      proof (cases "read_from_buffer p bufs sz")
        case None
        with True step(2) y show ?thesis by simp
      next
        case (Some r)
        show ?thesis
        proof (cases r)
          case (Inl e)
          with Some True step(2) y show ?thesis by auto
        next
          case (Inr t)
          obtain copy bytes p1 bufs1 where t: "t = (copy, bytes, p1, bufs1)" by (cases t) auto
          with Some Inr True step(2)
          have rec: "send p1 bufs1 (d @ bytes) (n + copy) (sz - copy) = Some y"
            by simp
          from Some Inr t have "read_from_buffer p bufs sz = Some (Inr (copy, bytes, p1, bufs1))"
            by simp
          from read_from_buffer_hands_over [OF this] pre
          have h1: "hands_over p (pending bufs) p1 (pending bufs1) bytes"
            and hp1: "list_all holds_payload bufs1"
            by simp_all
          from hands_over_in_frame [OF h1] hp1 step(1) [OF rec] y
          obtain more where hp': "list_all holds_payload bufs'"
            and d': "d' = (d @ bytes) @ more"
            and h2: "hands_over p1 (pending bufs1) p' (pending bufs') more"
            by blast
          from hands_over_trans [OF h1 h2] d' hp' show ?thesis by auto
        qed
      qed
    qed
  qed
qed

lemma fill_buffer_frame:
  "fill_buffer c = (w, c1) \<Longrightarrow> icy c1 = icy c \<and> buffers c1 = buffers c"
  by (auto simp: fill_buffer_def split: if_splits)

lemma fill_buffer_well_formed:
  "fill_buffer c = (w, c1) \<Longrightarrow> well_formed c1 = well_formed c"
  by (auto simp: fill_buffer_def well_formed_def split: if_splits)

lemma read_loop_hands_over:
  "input_curl_read_loop c dest nbytes sz = Some y \<Longrightarrow>
   dest = [] \<and> nbytes = 0 \<and> well_formed c \<longrightarrow>
   (\<forall>r c1. y = Inr (r, c1) \<longrightarrow>
      well_formed c1
      \<and> (\<forall>success err dest' nbytes'. r = Done (success, err, dest', nbytes') \<longrightarrow>
           hands_over (icy c) (pending (buffers c)) (icy c1) (pending (buffers c1)) dest'
           \<and> (\<not> success \<longrightarrow> dest' = [])))"
proof (induction rule: input_curl_read_loop.raw_induct [rotated, consumes 1, case_names step])
  case (step loop c dest nbytes sz y)
  show ?case
  proof (intro impI allI)
    fix r c1
    assume pre: "dest = [] \<and> nbytes = 0 \<and> well_formed c"
      and y: "y = Inr (r, c1)"
    let ?goal = "well_formed c1
          \<and> (\<forall>success err dest' nbytes'. r = Done (success, err, dest', nbytes') \<longrightarrow>
               hands_over (icy c) (pending (buffers c)) (icy c1) (pending (buffers c1)) dest'
               \<and> (\<not> success \<longrightarrow> dest' = []))"
    show ?goal
    proof (cases "fill_buffer c")
      case (Pair w c0)
      from fill_buffer_frame [OF Pair] have c0: "icy c0 = icy c" "buffers c0 = buffers c"
        by simp_all
      from fill_buffer_well_formed [OF Pair] pre have w0: "well_formed c0" by simp
      from pre have fr: "in_frame (icy c)" and hp: "list_all holds_payload (buffers c)"
        by (simp_all add: well_formed_def)
      show ?thesis
      proof (cases w)
        case Waiting
        with Pair step(2) y w0 show ?thesis by auto
      next
        case (Done res)
        obtain success0 err0 where res: "res = (success0, err0)" by (cases res) auto
        show ?thesis
        proof (cases success0)
          case False
          with Pair Done res step(2) y pre have "c1 = c0" "r = Done (False, err0, [], 0)"
            by auto
          with c0 w0 hands_over_refl [OF fr, of "pending (buffers c)"] show ?thesis
            by auto
        next
          case True
          show ?thesis
          proof (cases "send_buffer_contents (icy c0) (buffers c0) dest nbytes sz")
            case None
            with Pair Done res True step(2) y show ?thesis by simp
          next
            case (Some s)
            show ?thesis
            proof (cases s)
              case (Inl e)
              with Some Pair Done res True step(2) y show ?thesis by auto
            next
              case (Inr t)
              obtain icy2 bufs2 dest2 nbytes2 sz2 where t: "t = (icy2, bufs2, dest2, nbytes2, sz2)"
                by (cases t) auto
              from send_buffer_contents_hands_over [OF Some] Inr t c0 fr hp pre
              have hp2: "list_all holds_payload bufs2"
                and h: "hands_over (icy c) (pending (buffers c)) icy2 (pending bufs2) dest2"
                by auto
              from send_buffer_contents_counted [OF Some] Inr t c0 hp pre
              have cnt: "length dest2 = nbytes2" by simp
              from hands_over_in_frame [OF h] hp2
              have w2: "well_formed (c0\<lparr>icy := icy2, buffers := bufs2\<rparr>)"
                by (simp add: well_formed_def)
              show ?thesis
              proof (cases "nbytes2 = 0")
                case True
                with cnt have e: "dest2 = []" by simp
                from True Some Inr t Pair Done res \<open>success0\<close> step(2)
                have rec: "loop (c0\<lparr>icy := icy2, buffers := bufs2\<rparr>) dest2 nbytes2 sz2 = Some y"
                  by simp
                from step(1) [OF rec] e True y w2 have
                  w': "well_formed c1"
                  and h2: "\<forall>success err dest' nbytes'. r = Done (success, err, dest', nbytes') \<longrightarrow>
                            hands_over icy2 (pending bufs2) (icy c1) (pending (buffers c1)) dest'
                            \<and> (\<not> success \<longrightarrow> dest' = [])"
                  by simp_all
                show ?thesis
                proof (intro conjI allI impI)
                  show "well_formed c1" by (rule w')
                next
                  fix success err dest' nbytes'
                  assume "r = Done (success, err, dest', nbytes')"
                  with h2 have "hands_over icy2 (pending bufs2) (icy c1) (pending (buffers c1)) dest'"
                    by blast
                  from hands_over_trans [OF h this] e
                  show "hands_over (icy c) (pending (buffers c)) (icy c1) (pending (buffers c1)) dest'"
                    by simp
                next
                  fix success err dest' nbytes'
                  assume "r = Done (success, err, dest', nbytes')" and "\<not> success"
                  with h2 show "dest' = []" by blast
                qed
              next
                case False
                with Some Inr t Pair Done res \<open>success0\<close> step(2) y
                have "r = Done (True, None, dest2, nbytes2)"
                  "c1 = c0\<lparr>icy := icy2, buffers := bufs2\<rparr>"
                  by auto
                with h w2 show ?thesis by auto
              qed
            qed
          qed
        qed
      qed
    qed
  qed
qed

lemma copy_icy_tag_well_formed:
  "in_frame (icy (copy_icy_tag c)) = in_frame (icy c)
   \<and> stride (icy (copy_icy_tag c)) = stride (icy c) \<and> mode (icy (copy_icy_tag c)) = mode (icy c)"
  by (simp add: copy_icy_tag_def ReadTag_def in_frame_def IsDefined_def
        split: prod.splits option.splits)

lemma read_well_formed:
  assumes "input_curl_read c sz = Some (Inr (r, c', calls))" and "well_formed c"
  shows "well_formed c'"
proof -
  from assms(1) obtain r1 c1 where
    loop: "input_curl_read_loop c [] 0 sz = Some (Inr (r1, c1))"
    by (auto simp: input_curl_read_def Let_def
          split: option.splits sum.splits prod.splits blocking.splits if_splits)
  from read_loop_hands_over [OF loop] assms(2) have w1: "well_formed c1"
    by simp
  from assms(1) loop have "buffers c' = buffers c1"
    and "in_frame (icy c') = in_frame (icy c1)"
    by (auto simp: input_curl_read_def Let_def input_curl_resume_def copy_icy_tag_frame
          copy_icy_tag_well_formed
          split: if_splits blocking.splits prod.splits)
  with w1 show ?thesis
    by (simp add: well_formed_def)
qed

lemma read_hands_over:
  assumes "input_curl_read c sz = Some (Inr (Done (nbytes, dest, err), c', calls))"
    and "well_formed c"
  shows "\<exists>taken. pending (buffers c) = taken @ pending (buffers c')
                 \<and> dest = audio_bytes (icy c) taken"
proof -
  from assms(1) obtain success err1 dest1 nbytes1 c1 where
    loop: "input_curl_read_loop c [] 0 sz = Some (Inr (Done (success, err1, dest1, nbytes1), c1))"
    by (auto simp: input_curl_read_def Let_def
          split: option.splits sum.splits prod.splits blocking.splits if_splits)
  from read_loop_hands_over [OF loop] assms(2)
  have h: "hands_over (icy c) (pending (buffers c)) (icy c1) (pending (buffers c1)) dest1"
    and f: "\<not> success \<longrightarrow> dest1 = []"
    by simp_all
  from assms(1) loop have "buffers c' = buffers c1"
    and "dest = dest1"
    using f
    by (auto simp: input_curl_read_def Let_def input_curl_resume_def copy_icy_tag_frame
          split: if_splits)
  with h show ?thesis
    by (auto simp: hands_over_def)
qed

text \<open>Every step keeps a well-formed stream well formed.\<close>

lemma Start_in_frame: "0 < n \<Longrightarrow> in_frame (Start p n)"
  by (simp add: in_frame_def Start_def IsDefined_def)

lemma headerfunction_well_formed:
  "input_curl_headerfunction ptr size0 nmemb c = Inr c' \<Longrightarrow> well_formed c \<Longrightarrow> well_formed c'"
  by (auto simp: input_curl_headerfunction_def Let_def well_formed_def Start_in_frame
        split: option.splits sum.splits if_splits)

lemma writefunction_well_formed:
  "size0 * nmemb \<le> length ptr \<Longrightarrow> well_formed c \<Longrightarrow>
     well_formed (fst (input_curl_writefunction ptr size0 nmemb c))"
  by (simp add: input_curl_writefunction_def Let_def well_formed_def holds_payload_def
        CurlInputBuffer_new_def)

lemma seek_fast_forward_well_formed:
  "seek_fast_forward target c = Inr c1 \<Longrightarrow> well_formed c \<Longrightarrow> well_formed c1"
proof (induction target c rule: seek_fast_forward.induct)
  case (1 target c)
  show ?case
  proof (cases "buffers c")
    case Nil
    with "1.prems" show ?thesis by (simp add: seek_fast_forward.simps)
  next
    case (Cons buffer rest)
    show ?thesis
    proof (cases "offset c <s target")
      case False
      with Cons "1.prems" show ?thesis by (simp add: seek_fast_forward.simps)
    next
      case True
      define len where "len = (if target - offset c <s word_of_nat (Available buffer)
                               then unat (target - offset c) else Available buffer)"
      from "1.prems"(1) Cons True obtain nonempty buffer1 where
        cons: "Consume buffer len = Inr (nonempty, buffer1)" and
        rec: "seek_fast_forward target
                (c\<lparr>buffers := (if nonempty then buffer1 # rest else rest),
                  offset := offset c + word_of_nat len\<rparr>) = Inr c1"
        by (subst (asm) seek_fast_forward.simps) (auto simp: Let_def len_def split: sum.splits)
      from "1.prems"(2) Cons Consume_payload [OF cons]
      have "well_formed (c\<lparr>buffers := (if nonempty then buffer1 # rest else rest),
                           offset := offset c + word_of_nat len\<rparr>)"
        by (simp add: well_formed_def)
      from "1.IH" [OF Cons True len_def cons refl rec this] show ?thesis .
    qed
  qed
qed

lemma easy_init_frame:
  "buffers (snd (snd (input_curl_easy_init env c))) = buffers c
   \<and> icy (snd (snd (input_curl_easy_init env c))) = icy c"
  by (simp add: input_curl_easy_init_def Let_def)

lemma seek_well_formed:
  assumes "input_curl_seek env c offset0 whence = Inr (r, c', calls)" and "well_formed c"
  shows "well_formed c'"
proof -
  from assms have body: "input_curl_seek_body env c offset0 whence = Inr (r, c', calls)"
    by (simp add: input_curl_seek_def split: if_splits)
  show ?thesis
  proof (cases "seek_target c offset0 whence")
    case None
    with body assms(2) show ?thesis
      by (auto simp: input_curl_seek_body_def split: if_splits)
  next
    case (Some target)
    show ?thesis
    proof (cases "seek_fast_forward target c")
      case (Inl e)
      with body Some assms(2) show ?thesis
        by (auto simp: input_curl_seek_body_def split: if_splits)
    next
      case (Inr c1)
      from seek_fast_forward_well_formed [OF Inr assms(2)] have w1: "well_formed c1" .
      have "(buffers c' = buffers c \<or> buffers c' = buffers c1 \<or> buffers c' = [])
            \<and> (icy c' = icy c \<or> icy c' = icy c1)"
        using body Some Inr
          easy_init_frame [of env "(input_curl_easy_free c1)\<lparr>buffers := [], offset := target\<rparr>"]
        by (auto simp: input_curl_seek_body_def Let_def input_curl_easy_free_indirect_def
              input_curl_seek_wait_def input_curl_easy_free_def
              split: if_splits prod.splits sum.splits)
      with w1 assms(2) show ?thesis by (auto simp: well_formed_def)
    qed
  qed
qed

lemma step_well_formed:
  assumes "step e c = Some (k, c')" and "well_formed c" and "carries e"
  shows "well_formed c'"
proof (cases e)
  case (HeaderLine ptr size0 nmemb)
  with assms show ?thesis
    by (auto split: if_splits sum.splits dest: headerfunction_well_formed)
next
  case (WriteData ptr size0 nmemb)
  with assms show ?thesis
    by (auto split: if_splits simp: writefunction_well_formed carries_def)
next
  case (TransferDone result status msg)
  with assms show ?thesis
    by (auto simp: well_formed_def input_curl_handle_done_def input_curl_request_done_def
          input_curl_easy_free_def Let_def split: if_splits sum.splits)
next
  case (AbortAll err)
  with assms show ?thesis
    by (auto simp: well_formed_def input_curl_abort_all_requests_def input_curl_easy_free_def
          split: sum.splits if_splits)
next
  case (ReadCall sz)
  with assms show ?thesis
    by (auto split: option.splits sum.splits blocking.splits dest: read_well_formed)
next
  case (SeekCall env offset0 whence)
  with assms show ?thesis
    by (auto split: sum.splits dest: seek_well_formed)
next
  case SeekWake
  with assms show ?thesis
    by (auto simp: well_formed_def input_curl_seek_wait_def split: if_splits)
next
  case CheckCall
  with assms show ?thesis
    by (auto simp: well_formed_def input_curl_check_def Let_def split: if_splits)
next
  case TagCall
  with assms show ?thesis
    by (auto simp: well_formed_def input_curl_tag_def)
qed

lemma run_well_formed:
  "run evs (n, c) = Some (n', c') \<Longrightarrow> well_formed c \<Longrightarrow> \<forall>e \<in> set evs. carries e \<Longrightarrow>
     well_formed c'"
proof (induction evs arbitrary: n c)
  case Nil
  then show ?case by simp
next
  case (Cons e evs)
  from Cons.prems(1) obtain k c1 where s: "step e c = Some (k, c1)"
    and r: "run evs (n + k, c1) = Some (n', c')"
    by (auto split: option.splits)
  from Cons.prems(3) have ce: "carries e" and rest: "\<forall>e \<in> set evs. carries e"
    by simp_all
  from Cons.IH [OF r step_well_formed [OF s Cons.prems(2) ce] rest] show ?case .
qed

text \<open>
  C1.  A call of \<^verbatim>\<open>input_curl_read\<close> that returns \<open>nbytes\<close> leaves the offset increased by
  exactly \<open>nbytes\<close>, and, on a queue whose chunks hold their payload, \<open>nbytes\<close> is the number
  of bytes that it has copied to the destination.  On a well-formed stream these bytes are
  the audio bytes: the call takes some bytes \<open>taken\<close> from the front of the queue, the
  destination receives exactly the audio bytes among them, in their order, and the metadata
  bytes among them (those that the ICY parser consumes) are neither copied nor counted, so
  that \<open>taken\<close> has \<open>nbytes\<close> bytes and the metadata bytes.  Hence, on a stream on which no
  seek is performed, the sum of the values that the read calls have returned is the current
  offset minus the offset at the start of the run.  Every stream that a run reaches from a
  well-formed one is well formed, if its writes carry their bytes.  Offsets are
  \<^verbatim>\<open>goffset\<close> values, so that the equalities are those of 64-bit arithmetic.
\<close>

theorem read_advances_offset:
  "(input_curl_read c sz = Some (Inr (Done (nbytes, dest, err), c', calls)) \<longrightarrow>
      offset c' = offset c + word_of_nat nbytes
      \<and> (list_all holds_payload (buffers c) \<longrightarrow> length dest = nbytes)
      \<and> (well_formed c \<longrightarrow>
           (\<exists>taken. pending (buffers c) = taken @ pending (buffers c')
                    \<and> dest = audio_bytes (icy c) taken
                    \<and> length taken = nbytes + length (metadata_bytes (icy c) taken))))
   \<and> ((\<forall>e \<in> set evs. \<not> is_seek e) \<longrightarrow> run evs (0, d) = Some (delivered, d') \<longrightarrow>
        word_of_nat delivered = offset d' - offset d)
   \<and> (well_formed d \<longrightarrow> (\<forall>e \<in> set evs. carries e) \<longrightarrow>
        run evs (0, d) = Some (delivered, d') \<longrightarrow> well_formed d')"
proof (intro conjI impI)
  assume r: "input_curl_read c sz = Some (Inr (Done (nbytes, dest, err), c', calls))"
  from read_offset [OF r] show "offset c' = offset c + word_of_nat nbytes"
    by simp
  {
    assume "list_all holds_payload (buffers c)"
    with r show "length dest = nbytes"
      by (rule read_counted)
  }
  assume w: "well_formed c"
  then have hp: "list_all holds_payload (buffers c)" by (simp add: well_formed_def)
  from read_hands_over [OF r w] obtain taken where
    t: "pending (buffers c) = taken @ pending (buffers c')"
    and a: "dest = audio_bytes (icy c) taken"
    by blast
  from read_counted [OF r hp] a audio_bytes_length [of "icy c" taken]
  have "length taken = nbytes + length (metadata_bytes (icy c) taken)"
    by simp
  with t a show "\<exists>taken. pending (buffers c) = taken @ pending (buffers c')
                    \<and> dest = audio_bytes (icy c) taken
                    \<and> length taken = nbytes + length (metadata_bytes (icy c) taken)"
    by blast
next
  assume "\<forall>e \<in> set evs. \<not> is_seek e" and "run evs (0, d) = Some (delivered, d')"
  from run_offset [OF this(2) this(1)] show "word_of_nat delivered = offset d' - offset d"
    by simp
next
  assume "well_formed d" and "\<forall>e \<in> set evs. carries e"
    and "run evs (0, d) = Some (delivered, d')"
  from run_well_formed [OF this(3) this(1) this(2)] show "well_formed d'" .
qed

lemma write_icy_stream:
  "step (WriteData icy_body 1 25) icy_stream =
     Some (0, icy_stream\<lparr>ready := True, buffers := [CurlInputBuffer_new icy_body 25]\<rparr>)"
  by (simp add: icy_stream_def stream_defs input_curl_writefunction_def Let_def read_defs
        buffer_defs)

lemma read_icy_stream:
  "input_curl_read (icy_stream\<lparr>ready := True, buffers := [CurlInputBuffer_new icy_body 25]\<rparr>) 8 =
     Some (Inr (Done (8, ''AAAABBBB'', None),
                icy_stream\<lparr>ready := True, buffers := [], offset := 8,
                  tag := Some [(TAG_TITLE, ''x'')],
                  icy := \<lparr>stride = 4, mode = InLength, meta_text = [], parsed_tag = None\<rparr>\<rparr>,
                []))"
  by (simp add: icy_stream_def icy_body_def stream_defs read_defs buffer_defs icy_defs Let_def
        icy_parse_tag_def tag_new_def tag_add_item_def)

lemma run_icy_stream:
  "run [WriteData icy_body 1 25, ReadCall 8] (0, icy_stream) =
     Some (8, icy_stream\<lparr>ready := True, buffers := [], offset := 8,
                tag := Some [(TAG_TITLE, ''x'')],
                icy := \<lparr>stride = 4, mode = InLength, meta_text = [], parsed_tag = None\<rparr>\<rparr>)"
  using read_icy_stream
  by (simp del: step.simps One_nat_def add: write_icy_stream step.simps(5))

lemma icy_stream_facts:
  "well_formed icy_stream
   \<and> well_formed (icy_stream\<lparr>ready := True, buffers := [CurlInputBuffer_new icy_body 25]\<rparr>)
   \<and> pending (buffers (icy_stream\<lparr>ready := True,
                          buffers := [CurlInputBuffer_new icy_body 25]\<rparr>)) = icy_body
   \<and> icy (icy_stream\<lparr>ready := True, buffers := [CurlInputBuffer_new icy_body 25]\<rparr>)
       = icy icy_stream
   \<and> (\<forall>e \<in> set [WriteData icy_body 1 25, ReadCall 8]. carries e)
   \<and> (\<forall>e \<in> set [WriteData icy_body 1 25, ReadCall 8]. \<not> is_seek e)"
  by (simp add: well_formed_def in_frame_def icy_stream_def stream_defs Start_def IsDefined_def
        holds_payload_def icy_body_def pending_def unread_def Available_def Begin_def
        carries_def is_seek_def)

theorem read_advances_offset_witness:
  "offset (icy_stream\<lparr>ready := True, buffers := [], offset := 8,
             tag := Some [(TAG_TITLE, ''x'')],
             icy := \<lparr>stride = 4, mode = InLength, meta_text = [], parsed_tag = None\<rparr>\<rparr>)
     = offset (icy_stream\<lparr>ready := True, buffers := [CurlInputBuffer_new icy_body 25]\<rparr>)
       + word_of_nat 8
   \<and> length ''AAAABBBB'' = 8
   \<and> ''AAAABBBB'' = audio_bytes (icy icy_stream) icy_body
   \<and> length icy_body = 8 + length (metadata_bytes (icy icy_stream) icy_body)
   \<and> (word_of_nat 8 :: goffset)
       = offset (icy_stream\<lparr>ready := True, buffers := [], offset := 8,
                   tag := Some [(TAG_TITLE, ''x'')],
                   icy := \<lparr>stride = 4, mode = InLength, meta_text = [], parsed_tag = None\<rparr>\<rparr>)
         - offset icy_stream
   \<and> well_formed (icy_stream\<lparr>ready := True, buffers := [], offset := 8,
                     tag := Some [(TAG_TITLE, ''x'')],
                     icy := \<lparr>stride = 4, mode = InLength, meta_text = [], parsed_tag = None\<rparr>\<rparr>)"
proof -
  let ?c = "icy_stream\<lparr>ready := True, buffers := [CurlInputBuffer_new icy_body 25]\<rparr>"
  let ?c' = "icy_stream\<lparr>ready := True, buffers := [], offset := 8,
               tag := Some [(TAG_TITLE, ''x'')],
               icy := \<lparr>stride = 4, mode = InLength, meta_text = [], parsed_tag = None\<rparr>\<rparr>"
  note facts = icy_stream_facts
  from facts have payload: "list_all holds_payload (buffers ?c)"
    by (simp add: well_formed_def)
  have empty: "pending (buffers ?c') = []"
    by (simp add: pending_def)
  note inst = read_advances_offset
         [of ?c 8 8 "''AAAABBBB''" None ?c' "[]" "[WriteData icy_body 1 25, ReadCall 8]"
             icy_stream 8 ?c']
  from inst read_icy_stream have a: "offset ?c' = offset ?c + word_of_nat 8"
    by blast
  from inst read_icy_stream payload have b: "length ''AAAABBBB'' = 8"
    by blast
  from inst read_icy_stream facts obtain taken where
    "pending (buffers ?c) = taken @ pending (buffers ?c')"
    and "''AAAABBBB'' = audio_bytes (icy ?c) taken"
    and "length taken = 8 + length (metadata_bytes (icy ?c) taken)"
    by blast
  with facts empty have c: "''AAAABBBB'' = audio_bytes (icy icy_stream) icy_body"
    and d: "length icy_body = 8 + length (metadata_bytes (icy icy_stream) icy_body)"
    by simp_all
  from inst run_icy_stream facts have e: "(word_of_nat 8 :: goffset) = offset ?c' - offset icy_stream"
    by blast
  from inst run_icy_stream facts have f: "well_formed ?c'"
    by blast
  from a b c d e f show ?thesis by blast
qed

subsection \<open>Seeking\<close>

lemmas seek_defs =
  input_curl_seek_def input_curl_seek_body_def seek_target_def SEEK_SET_def SEEK_CUR_def
  SEEK_END_def seek_fast_forward.simps input_curl_easy_free_indirect_def
  input_curl_easy_free_def input_curl_easy_init_def input_curl_easy_add_indirect_def
  input_curl_easy_add_def input_curl_seek_wait_def setopts_def curl_easy_setopt_def
  Let_def word_sless_alt word_sle_eq

lemma seek_fast_forward_frame:
  "seek_fast_forward target c = Inr c1 \<Longrightarrow>
     uri c1 = uri c \<and> base_size c1 = base_size c \<and> easy c1 = easy c \<and> seekable c1 = seekable c
     \<and> ready c1 = ready c \<and> paused c1 = paused c \<and> icy c1 = icy c"
proof (induction target c rule: seek_fast_forward.induct)
  case (1 target c)
  show ?case
  proof (cases "buffers c")
    case Nil
    with "1.prems" show ?thesis by (simp add: seek_fast_forward.simps)
  next
    case (Cons buffer rest)
    show ?thesis
    proof (cases "offset c <s target")
      case False
      with Cons "1.prems" show ?thesis by (simp add: seek_fast_forward.simps)
    next
      case True
      define len where "len = (if target - offset c <s word_of_nat (Available buffer)
                               then unat (target - offset c) else Available buffer)"
      from "1.prems" Cons True obtain nonempty buffer1 where
        cons: "Consume buffer len = Inr (nonempty, buffer1)" and
        rec: "seek_fast_forward target
                (c\<lparr>buffers := (if nonempty then buffer1 # rest else rest),
                  offset := offset c + word_of_nat len\<rparr>) = Inr c1"
        by (subst (asm) seek_fast_forward.simps) (auto simp: Let_def len_def split: sum.splits)
      from "1.IH" [OF Cons True len_def cons refl rec]
      show ?thesis by simp
    qed
  qed
qed

lemma easy_free_frame:
  "uri (input_curl_easy_free c) = uri c \<and> base_size (input_curl_easy_free c) = base_size c
   \<and> offset (input_curl_easy_free c) = offset c \<and> easy (input_curl_easy_free c) = None
   \<and> buffers (input_curl_easy_free c) = buffers c"
  by (simp add: input_curl_easy_free_def)

lemma easy_init_ok:
  assumes "curl_easy_init env" and "setopt_url_code env = 0"
  shows "\<exists>h. input_curl_easy_init env c
           = (True, None, c\<lparr>easy := Some h, request_headers := [''Icy-Metadata: 1'']\<rparr>)
         \<and> (CURLOPT_URL, Str (uri c)) \<in> set h \<and> CURLOPT_RANGE \<notin> fst ` set h"
  using assms
  by (auto simp: input_curl_easy_init_def Let_def setopts_def curl_easy_setopt_def
        split: option.splits prod.splits)

lemma sint_zero: "\<not> (0::goffset) <s t \<Longrightarrow> \<not> t <s 0 \<Longrightarrow> t = 0"
  by (simp add: word_sless_alt) (metis linorder_neqE_linordered_idom signed_0 signed_word_eqI)

lemma printf_lld_5: "printf_lld 5 = ''5''"
  by (simp add: printf_lld_def decimal.simps word_sless_alt char_of_def bit_iff_odd)

text \<open>
  C5, as stated, fails in its first case.  \<^verbatim>\<open>input_curl_seek\<close> does not test whether the
  stream is ready: it asserts it.  On a stream that is not ready, the call
  \<^verbatim>\<open>seek(0, SEEK_SET)\<close> aborts at the assertion, and with assertions compiled out it
  returns \<^verbatim>\<open>true\<close>; it returns \<^verbatim>\<open>false\<close> in neither build.
\<close>

theorem seek_not_ready_counterexample:
  "\<not> ready live_stream
   \<and> input_curl_seek plain_env live_stream 0 SEEK_SET = Inl AssertionFailed
   \<and> input_curl_seek_body plain_env live_stream 0 SEEK_SET = Inr (Done (True, None), live_stream, [])"
  by (simp add: seek_defs stream_defs)

text \<open>
  C5, amended.  On a stream that is ready, at an offset that is not negative,
  \<^verbatim>\<open>input_curl_seek\<close> returns \<^verbatim>\<open>false\<close> whenever \<open>whence\<close> is \<^verbatim>\<open>SEEK_END\<close> and the size is
  not known, or the absolute offset that it computes is negative; it then returns at
  once, ships nothing to the I/O thread, and leaves the stream as it was.
\<close>

theorem seek_rejects:
  assumes "ready c" and "0 \<le>s offset c"
    and "(whence = SEEK_END \<and> base_size c <s 0)
         \<or> (\<exists>target. seek_target c offset0 whence = Some target \<and> target <s 0)"
  shows "input_curl_seek env c offset0 whence = Inr (Done (False, None), c, [])"
proof -
  from assms(2,3) have "\<not> (whence = SEEK_SET \<and> offset0 = offset c)"
    by (auto simp: seek_target_def SEEK_SET_def SEEK_END_def word_sle_eq word_sless_alt)
  moreover from assms(3) have "seek_target c offset0 whence = None
      \<or> (\<exists>target. seek_target c offset0 whence = Some target \<and> target <s 0)"
    by (auto simp: seek_target_def SEEK_SET_def SEEK_CUR_def SEEK_END_def)
  ultimately show ?thesis using assms(1)
    by (auto simp: input_curl_seek_def input_curl_seek_body_def)
qed

theorem seek_rejects_witness:
  "input_curl_seek plain_env unsized_stream 0 SEEK_END = Inr (Done (False, None), unsized_stream, [])
   \<and> input_curl_seek plain_env finished_stream (- 11) SEEK_CUR
       = Inr (Done (False, None), finished_stream, [])"
proof -
  have "ready unsized_stream" and "0 \<le>s offset unsized_stream"
    and "SEEK_END = SEEK_END \<and> base_size unsized_stream <s 0"
    by (simp_all add: unsized_stream_def stream_defs word_sle_eq word_sless_alt)
  then have a: "input_curl_seek plain_env unsized_stream 0 SEEK_END
                  = Inr (Done (False, None), unsized_stream, [])"
    using seek_rejects [of unsized_stream SEEK_END 0 plain_env] by blast
  have "ready finished_stream" and "0 \<le>s offset finished_stream"
    and "seek_target finished_stream (- 11) SEEK_CUR = Some (- 1) \<and> (- 1 :: goffset) <s 0"
    by (simp_all add: stream_defs seek_target_def SEEK_SET_def SEEK_CUR_def word_sle_eq
          word_sless_alt)
  then have b: "input_curl_seek plain_env finished_stream (- 11) SEEK_CUR
                  = Inr (Done (False, None), finished_stream, [])"
    using seek_rejects [of finished_stream SEEK_CUR "- 11" plain_env] by blast
  from a b show ?thesis by simp
qed

text \<open>
  C6, as stated, fails for the target offset zero.  On the finished stream, at offset 10 of
  10, the target 0 is not reached through the buffer and is not the size; the transfer is
  set up again, and no Range option is set on its handle.
\<close>

theorem seek_to_zero_counterexample:
  "seek_fast_forward 0 finished_stream = Inr finished_stream
   \<and> offset finished_stream \<noteq> 0 \<and> base_size finished_stream \<noteq> 0
   \<and> input_curl_seek plain_env finished_stream 0 SEEK_SET =
       Inr (Waiting,
            finished_stream\<lparr>offset := 0, ready := False,
              request_headers := [''Icy-Metadata: 1''], easy := Some plain_handle\<rparr>,
            [input_curl_easy_free_callback, input_curl_easy_add_callback])
   \<and> map_of plain_handle CURLOPT_RANGE = None"
  by (simp add: seek_defs stream_defs)

text \<open>
  C6, amended.  Take a seek that passes the checks of \<^verbatim>\<open>input_curl_seek\<close> (the stream is
  ready and seekable, the call is not the no-op, the absolute offset \<open>target\<close> is computed
  and is not negative), whose target is not reached by fast-forwarding the buffer and is
  not the size of the stream, and let libcurl set up the new handle.  Then the old handle
  is freed, the queue is emptied, the offset is the target, and a new transfer for the same
  URI is set up and handed to the I/O thread; for a target above zero it carries the Range
  option \<open>target-\<close>, and for the target zero it carries no Range option.
\<close>

theorem seek_reopens_with_range:
  assumes "ready c" and "seekable c" and "\<not> (whence = SEEK_SET \<and> offset0 = offset c)"
    and "seek_target c offset0 whence = Some target" and "\<not> target <s 0"
    and "seek_fast_forward target c = Inr c1" and "target \<noteq> offset c1"
    and "target \<noteq> base_size c1"
    and "curl_easy_init env" and "setopt_url_code env = 0"
  shows "\<exists>r c' calls h.
           input_curl_seek env c offset0 whence = Inr (r, c', calls) \<and> easy c' = Some h
           \<and> offset c' = target \<and> buffers c' = [] \<and> \<not> ready c'
           \<and> input_curl_easy_add_callback \<in> set calls
           \<and> (CURLOPT_URL, Str (uri c)) \<in> set h
           \<and> (if 0 <s target
               then range_hdr c' = Some (printf_lld target @ ''-'')
                    \<and> (CURLOPT_RANGE, Str (printf_lld target @ ''-'')) \<in> set h
               else target = 0 \<and> CURLOPT_RANGE \<notin> fst ` set h)"
proof -
  let ?c3 = "(input_curl_easy_free c1)\<lparr>buffers := [], offset := target\<rparr>"
  from seek_fast_forward_frame [OF assms(6)] have u: "uri ?c3 = uri c"
    by (simp add: easy_free_frame)
  from easy_init_ok [OF assms(9,10), of ?c3] obtain h where
    init: "input_curl_easy_init env ?c3
             = (True, None, ?c3\<lparr>easy := Some h, request_headers := [''Icy-Metadata: 1'']\<rparr>)"
    and url: "(CURLOPT_URL, Str (uri ?c3)) \<in> set h" and nr: "CURLOPT_RANGE \<notin> fst ` set h"
    by blast
  let ?c4 = "?c3\<lparr>easy := Some h, request_headers := [''Icy-Metadata: 1'']\<rparr>"
  let ?range = "printf_lld target @ ''-''"
  let ?c5 = "if 0 <s target
             then ?c4\<lparr>range_hdr := Some ?range,
                      easy := Some (curl_easy_setopt h CURLOPT_RANGE (Str ?range))\<rparr>
             else ?c4"
  let ?c6 = "?c5\<lparr>ready := False\<rparr>"
  have zero: "\<not> 0 <s target \<Longrightarrow> target = 0"
    using assms(5) by (simp add: sint_zero)
  have seek: "input_curl_seek env c offset0 whence =
      (case input_curl_easy_add_indirect env ?c6 of
         Inl e \<Rightarrow> Inl e
       | Inr (added, err2, calls2) \<Rightarrow>
           if \<not> added
           then Inr (Done (False, err2), ?c6, [input_curl_easy_free_callback] @ calls2)
           else Inr (Waiting, ?c6, [input_curl_easy_free_callback] @ calls2))"
    using assms(1-8)
    by (simp add: input_curl_seek_def input_curl_seek_body_def
          input_curl_easy_free_indirect_def easy_free_frame init Let_def
          input_curl_seek_wait_def split: sum.splits)
  have "\<exists>added err2. input_curl_easy_add_indirect env ?c6
                        = Inr (added, err2, [input_curl_easy_add_callback])"
    by (auto simp: input_curl_easy_add_indirect_def input_curl_easy_add_def)
  then obtain added err2 where
    add: "input_curl_easy_add_indirect env ?c6 = Inr (added, err2, [input_curl_easy_add_callback])"
    by blast
  let ?r = "if \<not> added then Done (False, err2) else Waiting"
  let ?h = "if 0 <s target then curl_easy_setopt h CURLOPT_RANGE (Str ?range) else h"
  have res: "input_curl_seek env c offset0 whence
               = Inr (?r, ?c6, [input_curl_easy_free_callback, input_curl_easy_add_callback])"
    by (simp add: seek add)
  have "easy ?c6 = Some ?h" and "offset ?c6 = target" and "buffers ?c6 = []" and "\<not> ready ?c6"
    by simp_all
  moreover have "(CURLOPT_URL, Str (uri c)) \<in> set ?h"
    using url u by (simp add: curl_easy_setopt_def)
  moreover have "if 0 <s target
                 then range_hdr ?c6 = Some ?range \<and> (CURLOPT_RANGE, Str ?range) \<in> set ?h
                 else target = 0 \<and> CURLOPT_RANGE \<notin> fst ` set ?h"
    using nr zero by (simp add: curl_easy_setopt_def)
  ultimately show ?thesis
    using res
    by (intro exI [of _ ?r] exI [of _ ?c6]
          exI [of _ "[input_curl_easy_free_callback, input_curl_easy_add_callback]"]
          exI [of _ ?h]) simp
qed

theorem seek_reopens_with_range_witness:
  "\<exists>r c' calls h.
     input_curl_seek plain_env finished_stream 5 SEEK_SET = Inr (r, c', calls) \<and> easy c' = Some h
     \<and> offset c' = 5 \<and> buffers c' = [] \<and> \<not> ready c'
     \<and> input_curl_easy_add_callback \<in> set calls
     \<and> (CURLOPT_URL, Str ''http://host/file'') \<in> set h
     \<and> range_hdr c' = Some ''5-'' \<and> (CURLOPT_RANGE, Str ''5-'') \<in> set h"
proof -
  have "ready finished_stream" and "seekable finished_stream"
    and "\<not> (SEEK_SET = SEEK_SET \<and> 5 = offset finished_stream)"
    and "seek_target finished_stream 5 SEEK_SET = Some 5" and "\<not> (5 :: goffset) <s 0"
    and "seek_fast_forward 5 finished_stream = Inr finished_stream"
    and "5 \<noteq> offset finished_stream" and "5 \<noteq> base_size finished_stream"
    and "curl_easy_init plain_env" and "setopt_url_code plain_env = 0"
    by (simp_all add: seek_defs stream_defs)
  from seek_reopens_with_range [OF this]
  show ?thesis by (simp add: printf_lld_5 word_sless_alt finished_stream_def input_curl_new_def)
qed

subsection \<open>Header lines\<close>

lemmas header_defs =
  input_curl_headerfunction_def memchr_def memcpy_terminated_def c_str_def
  g_ascii_tolower_def g_ascii_isspace_def skip_leading_space.simps strip_trailing_space.simps
  g_ascii_strtoull_def ISSPACE_def g_strndup_def is_digit_def digit_value_def decimal_value_def
  size_t_diff_def Let_def

lemma skip_leading_space_bounds:
  "value \<le> end \<Longrightarrow>
     value \<le> skip_leading_space header value end \<and> skip_leading_space header value end \<le> end"
proof (induction header "value" "end" rule: skip_leading_space.induct)
  case (1 header "value" "end")
  then show ?case
    by (subst (1 2) skip_leading_space.simps) auto
qed

lemma strip_trailing_space_bounds:
  "value \<le> end \<Longrightarrow>
     value \<le> strip_trailing_space header value end
     \<and> strip_trailing_space header value end \<le> end"
proof (induction header "value" "end" rule: strip_trailing_space.induct)
  case (1 header "value" "end")
  show ?case
  proof (cases "end > value \<and> g_ascii_isspace (header ! (end - 1))")
    case True
    then have "value \<le> end - 1" by auto
    from "1.IH" [OF True this] True show ?thesis
      by (subst (1 2) strip_trailing_space.simps) auto
  next
    case False
    with "1.prems" show ?thesis
      by (subst (1 2) strip_trailing_space.simps) auto
  qed
qed

lemma memchr_Some: "memchr s ch = Some n \<Longrightarrow> n < length s"
proof -
  assume "memchr s ch = Some n"
  then have "ch \<in> set s" and n: "n = length (takeWhile (\<lambda>x. x \<noteq> ch) s)"
    by (auto simp: memchr_def split: if_splits)
  then have "takeWhile (\<lambda>x. x \<noteq> ch) s \<noteq> s"
    by (auto simp: takeWhile_eq_all_conv)
  then have "length (takeWhile (\<lambda>x. x \<noteq> ch) s) < length s"
    by (metis length_takeWhile_le le_neq_implies_less takeWhile_eq_take take_all)
  with n show ?thesis by simp
qed

text \<open>Where the value of a header line begins and ends.\<close>

lemma value_end:
  assumes "memchr (take sz ptr) CHR '':'' = Some colon"
  defines "value \<equiv> skip_leading_space (take sz ptr) (colon + 1) sz"
  defines "end \<equiv> strip_trailing_space (take sz ptr) value sz"
  shows "colon < value \<and> value \<le> end \<and> end \<le> sz \<and> size_t_diff end value = end - value"
proof -
  from memchr_Some [OF assms(1)] have "colon + 1 \<le> sz" by simp
  from skip_leading_space_bounds [OF this, of "take sz ptr"]
  have v: "colon + 1 \<le> value" "value \<le> sz"
    by (simp_all add: value_def)
  from strip_trailing_space_bounds [OF v(2), of "take sz ptr"]
  have "value \<le> end" "end \<le> sz"
    by (simp_all add: end_def)
  with v show ?thesis by (simp add: size_t_diff_def)
qed

lemma headerfunction_in_bounds:
  "\<exists>c'. input_curl_headerfunction ptr size0 nmemb c = Inr c'"
proof (cases "memchr (take (size0 * nmemb) ptr) CHR '':''")
  case None
  then show ?thesis by (simp add: input_curl_headerfunction_def)
next
  case (Some colon)
  let ?header = "take (size0 * nmemb) ptr"
  let ?val = "skip_leading_space ?header (Suc colon) (size0 * nmemb)"
  let ?fin = "strip_trailing_space ?header ?val (size0 * nmemb)"
  from value_end [OF Some] have d: "size_t_diff ?fin ?val = ?fin - ?val"
    by simp
  have n: "colon < 64 \<Longrightarrow> memcpy_terminated 64 ?header colon = Inr (c_str (take colon ?header))"
    by (simp add: memcpy_terminated_def)
  have v: "?fin < 64 \<Longrightarrow>
             memcpy_terminated 64 (drop ?val ?header) (size_t_diff ?fin ?val)
               = Inr (c_str (take (?fin - ?val) (drop ?val ?header)))"
    by (simp add: memcpy_terminated_def d)
  show ?thesis
    by (simp add: input_curl_headerfunction_def Let_def Some n v not_le)
qed

lemma headerfunction_icy:
  assumes "input_curl_headerfunction ptr size0 nmemb c = Inr c'"
  shows "(IsDefined (icy c) \<longrightarrow> IsDefined (icy c') \<and> seekable c' = seekable c)
       \<and> (\<not> IsDefined (icy c) \<longrightarrow> IsDefined (icy c') \<longrightarrow> \<not> seekable c')"
  using assms
  by (auto simp: input_curl_headerfunction_def Let_def Start_def IsDefined_def
        split: option.splits sum.splits if_splits)

text \<open>
  What the callback does with a line \<^verbatim>\<open>icy-metaint: K\<close>: the comparison of the name, the two
  loops that strip the value, and the conversion of its digits.
\<close>

lemma of_char_nonzero: "a \<noteq> CHR 0x00 \<Longrightarrow> (of_char a :: nat) \<noteq> 0"
  by (cases a) auto

lemma strcasecmp_eq:
  "CHR 0x00 \<notin> set s1 \<Longrightarrow> CHR 0x00 \<notin> set s2 \<Longrightarrow>
     (g_ascii_strcasecmp s1 s2 = 0) = (map g_ascii_tolower s1 = map g_ascii_tolower s2)"
proof (induction s1 s2 rule: g_ascii_strcasecmp.induct)
  case 1
  then show ?case by simp
next
  case (2 a s1)
  then have "a \<noteq> CHR 0x00" by auto
  from of_char_nonzero [OF this] show ?case by simp
next
  case (3 b s2)
  then have "b \<noteq> CHR 0x00" by auto
  from of_char_nonzero [OF this] show ?case by simp
next
  case (4 a s1 b s2)
  from "4.prems" have n: "CHR 0x00 \<notin> set s1" "CHR 0x00 \<notin> set s2" by simp_all
  show ?case
  proof (cases "g_ascii_tolower a = g_ascii_tolower b")
    case True
    with "4.IH" [OF refl refl _ n] show ?thesis by (simp add: Let_def)
  next
    case False
    then have "(of_char (g_ascii_tolower a) :: nat) \<noteq> of_char (g_ascii_tolower b)"
      by simp
    then have "int (of_char (g_ascii_tolower a)) - int (of_char (g_ascii_tolower b)) \<noteq> 0"
      by simp
    with False show ?thesis by (simp add: Let_def)
  qed
qed

lemma memchr_first:
  "ch \<notin> set pre \<Longrightarrow> memchr (pre @ ch # rest) ch = Some (length pre)"
proof -
  assume "ch \<notin> set pre"
  then have "takeWhile (\<lambda>x. x \<noteq> ch) (pre @ ch # rest) = pre"
    by (subst takeWhile_append2) auto
  then show ?thesis by (simp add: memchr_def)
qed

lemma skip_leading_space_pad:
  "list_all g_ascii_isspace pad \<Longrightarrow> rest = [] \<or> \<not> g_ascii_isspace (hd rest) \<Longrightarrow>
     skip_leading_space (pre @ pad @ rest) (length pre) (length (pre @ pad @ rest))
       = length pre + length pad"
proof (induction pad arbitrary: pre)
  case Nil
  then show ?case
    by (subst skip_leading_space.simps) (auto simp: nth_append hd_conv_nth)
next
  case (Cons x pad)
  from Cons.IH [of "pre @ [x]"] Cons.prems show ?case
    by (subst skip_leading_space.simps) (simp add: nth_append)
qed

lemma strip_trailing_space_trail:
  "list_all g_ascii_isspace trail \<Longrightarrow> value \<le> length pre \<Longrightarrow>
   value < length pre \<longrightarrow> \<not> g_ascii_isspace (last pre) \<Longrightarrow>
     strip_trailing_space (pre @ trail @ post) value (length pre + length trail) = length pre"
proof (induction trail arbitrary: post rule: rev_induct)
  case Nil
  show ?case
  proof (cases "value < length pre")
    case True
    then have "pre \<noteq> []" by auto
    with True Nil.prems show ?thesis
      by (subst strip_trailing_space.simps) (simp add: nth_append last_conv_nth)
  next
    case False
    with Nil.prems show ?thesis
      by (subst strip_trailing_space.simps) simp
  qed
next
  case (snoc x trail)
  from snoc.IH [of "x # post"] snoc.prems show ?case
    by (subst strip_trailing_space.simps) (simp add: nth_append)
qed

lemma digit_facts:
  "is_digit ch \<Longrightarrow> ch \<noteq> CHR 0x00 \<and> \<not> ISSPACE ch \<and> \<not> g_ascii_isspace ch
     \<and> ch \<noteq> CHR ''-'' \<and> ch \<noteq> CHR ''+'' \<and> ch \<noteq> CHR '':''"
  by (auto simp: is_digit_def ISSPACE_def g_ascii_isspace_def)

lemma strtoull_digits:
  assumes "digits \<noteq> []" and "list_all is_digit digits"
  shows "g_ascii_strtoull digits
           = (if decimal_value digits < 2 ^ 64 then word_of_nat (decimal_value digits) else - 1)"
proof -
  from assms(2) have all: "\<forall>ch \<in> set digits. is_digit ch"
    by (simp add: list_all_iff)
  with digit_facts have "\<forall>ch \<in> set digits. ch \<noteq> CHR 0x00" by blast
  then have c: "c_str digits = digits"
    by (simp add: c_str_def takeWhile_eq_all_conv)
  from assms(1) all have h: "is_digit (hd digits)" by simp
  with assms(1) digit_facts [OF h] have d: "dropWhile ISSPACE digits = digits"
    by (cases digits) simp_all
  from all have t: "takeWhile is_digit digits = digits"
    by (simp add: takeWhile_eq_all_conv)
  from assms(1) digit_facts [OF h] show ?thesis
    by (simp add: g_ascii_strtoull_def Let_def c d t)
qed

lemma strtoull_positive:
  assumes "digits \<noteq> []" and "list_all is_digit digits" and "0 < decimal_value digits"
  shows "0 < unat (g_ascii_strtoull digits)
         \<and> (decimal_value digits < 2 ^ 64 \<longrightarrow>
              unat (g_ascii_strtoull digits) = decimal_value digits)"
proof (cases "decimal_value digits < 2 ^ 64")
  case True
  then have "unat (word_of_nat (decimal_value digits) :: 64 word) = decimal_value digits"
    by (simp add: unsigned_of_nat take_bit_nat_eq_self)
  with True assms(3) strtoull_digits [OF assms(1,2)] show ?thesis by simp
next
  case False
  have "0 < unat (- 1 :: 64 word)" by (simp add: unat_gt_0)
  with False strtoull_digits [OF assms(1,2)] show ?thesis by simp
qed

lemma icy_metaint_name:
  assumes "map g_ascii_tolower name = ''icy-metaint''"
  shows "CHR '':'' \<notin> set name" and "CHR 0x00 \<notin> set name" and "length name = 11"
    and "g_ascii_strcasecmp name ''accept-ranges'' \<noteq> 0"
    and "g_ascii_strcasecmp name ''content-length'' \<noteq> 0"
    and "g_ascii_strcasecmp name ''content-type'' \<noteq> 0"
    and "g_ascii_strcasecmp name ''icy-name'' \<noteq> 0"
    and "g_ascii_strcasecmp name ''ice-name'' \<noteq> 0"
    and "g_ascii_strcasecmp name ''x-audiocast-name'' \<noteq> 0"
    and "g_ascii_strcasecmp name ''icy-metaint'' = 0"
proof -
  from assms have img: "g_ascii_tolower ` set name = set ''icy-metaint''"
    by (metis set_map)
  show colon: "CHR '':'' \<notin> set name"
  proof
    assume "CHR '':'' \<in> set name"
    then have "g_ascii_tolower CHR '':'' \<in> g_ascii_tolower ` set name" by (rule imageI)
    with img show False by (simp add: g_ascii_tolower_def)
  qed
  show nul: "CHR 0x00 \<notin> set name"
  proof
    assume "CHR 0x00 \<in> set name"
    then have "g_ascii_tolower CHR 0x00 \<in> g_ascii_tolower ` set name" by (rule imageI)
    with img show False by (simp add: g_ascii_tolower_def)
  qed
  from assms have "length (map g_ascii_tolower name) = length ''icy-metaint''" by simp
  then show "length name = 11" by simp
  from nul assms show "g_ascii_strcasecmp name ''accept-ranges'' \<noteq> 0"
    by (simp add: strcasecmp_eq g_ascii_tolower_def)
  from nul assms show "g_ascii_strcasecmp name ''content-length'' \<noteq> 0"
    by (simp add: strcasecmp_eq g_ascii_tolower_def)
  from nul assms show "g_ascii_strcasecmp name ''content-type'' \<noteq> 0"
    by (simp add: strcasecmp_eq g_ascii_tolower_def)
  from nul assms show "g_ascii_strcasecmp name ''icy-name'' \<noteq> 0"
    by (simp add: strcasecmp_eq g_ascii_tolower_def)
  from nul assms show "g_ascii_strcasecmp name ''ice-name'' \<noteq> 0"
    by (simp add: strcasecmp_eq g_ascii_tolower_def)
  from nul assms show "g_ascii_strcasecmp name ''x-audiocast-name'' \<noteq> 0"
    by (simp add: strcasecmp_eq g_ascii_tolower_def)
  from nul assms show "g_ascii_strcasecmp name ''icy-metaint'' = 0"
    by (simp add: strcasecmp_eq g_ascii_tolower_def)
qed

lemma icy_metaint_starts:
  assumes name: "map g_ascii_tolower name = ''icy-metaint''"
    and pad: "list_all g_ascii_isspace pad"
    and digits: "digits \<noteq> []" "list_all is_digit digits" "0 < decimal_value digits"
    and trail: "list_all g_ascii_isspace trail"
    and short: "length (name @ [CHR '':''] @ pad @ digits) < 64"
    and sz: "size0 * nmemb = length (header_line name pad digits trail)"
  shows "input_curl_headerfunction (header_line name pad digits trail) size0 nmemb c
           = Inr (if IsDefined (icy c) then c
                  else c\<lparr>icy := Start (icy c) (unat (g_ascii_strtoull digits)),
                         seekable := False\<rparr>)"
proof -
  let ?line = "header_line name pad digits trail"
  let ?sz = "size0 * nmemb"
  note nm = icy_metaint_name [OF name]
  have header: "take ?sz ?line = ?line" by (simp add: sz)
  have colon: "memchr ?line CHR '':'' = Some (length name)"
    using memchr_first [OF nm(1), of "pad @ digits @ trail"] by (simp add: header_line_def)
  have cname: "memcpy_terminated 64 ?line (length name) = Inr name"
    using nm(2) nm(3)
    by (auto simp: memcpy_terminated_def header_line_def c_str_def takeWhile_eq_all_conv)
  from digits(1,2) have hd: "is_digit (hd digits)" and lst: "is_digit (last digits)"
    by (simp_all add: list_all_iff)
  have "skip_leading_space ((name @ [CHR '':'']) @ pad @ (digits @ trail))
          (length (name @ [CHR '':''])) (length ((name @ [CHR '':'']) @ pad @ (digits @ trail)))
        = length (name @ [CHR '':'']) + length pad"
    using digits(1) digit_facts [OF hd]
    by (intro skip_leading_space_pad [OF pad]) simp
  then have val: "skip_leading_space ?line (Suc (length name)) ?sz = Suc (length name + length pad)"
    by (simp add: sz header_line_def)
  have "strip_trailing_space ((name @ [CHR '':''] @ pad @ digits) @ trail @ [])
          (Suc (length name) + length pad)
          (length (name @ [CHR '':''] @ pad @ digits) + length trail)
        = length (name @ [CHR '':''] @ pad @ digits)"
    using digits(1) digit_facts [OF lst]
    by (intro strip_trailing_space_trail [OF trail]) simp_all
  then have fin: "strip_trailing_space ?line (Suc (length name + length pad)) ?sz
                    = Suc (length name + length pad + length digits)"
    by (simp add: sz header_line_def add.assoc)
  from digits(2) have "\<forall>ch \<in> set digits. ch \<noteq> CHR 0x00"
    using digit_facts by (auto simp: list_all_iff)
  then have cd: "c_str digits = digits"
    by (simp add: c_str_def takeWhile_eq_all_conv)
  from short have cval: "memcpy_terminated 64 (drop (Suc (length name + length pad)) ?line)
                 (size_t_diff (Suc (length name + length pad + length digits))
                    (Suc (length name + length pad))) = Inr digits"
    by (simp add: memcpy_terminated_def size_t_diff_def header_line_def cd)
  from strtoull_positive [OF digits] have pos: "0 < unat (g_ascii_strtoull digits)" by simp
  from short have "\<not> 64 \<le> length name"
    and "\<not> 64 \<le> Suc (length name) + length pad + length digits"
    by simp_all
  with pos show ?thesis
    by (simp add: input_curl_headerfunction_def Let_def header colon cname val fin cval
          nm(4-10) del: length_append)
qed

lemma header_lines_icy:
  "header_lines hs c = Inr c' \<Longrightarrow> (IsDefined (icy c) \<longrightarrow> \<not> seekable c) \<Longrightarrow>
     (IsDefined (icy c') \<longrightarrow> \<not> seekable c') \<and> (IsDefined (icy c) \<longrightarrow> IsDefined (icy c'))"
proof (induction hs arbitrary: c)
  case Nil
  then show ?case by simp
next
  case (Cons h hs)
  obtain ptr size0 nmemb where h: "h = (ptr, size0, nmemb)"
    by (cases h) auto
  with Cons.prems(1) obtain c1 where
    first: "input_curl_headerfunction ptr size0 nmemb c = Inr c1"
    and rest: "header_lines hs c1 = Inr c'"
    by (auto split: sum.splits)
  from headerfunction_icy [OF first] Cons.prems(2)
  have inv: "IsDefined (icy c1) \<longrightarrow> \<not> seekable c1"
    and act: "IsDefined (icy c) \<longrightarrow> IsDefined (icy c1)"
    by auto
  from Cons.IH [OF rest inv] act show ?case by blast
qed

lemma accept_ranges_first:
  "input_curl_headerfunction accept_ranges_line 1 22 live_stream
     = Inr (live_stream\<lparr>seekable := True\<rparr>)"
  by (simp add: header_defs stream_defs icy_defs accept_ranges_line_def)

lemma padded_metaint_second:
  "input_curl_headerfunction padded_metaint_line 1 78 (live_stream\<lparr>seekable := True\<rparr>)
     = Inr (live_stream\<lparr>seekable := True\<rparr>)"
  by (simp add: header_defs stream_defs icy_defs padded_metaint_line_def)

text \<open>
  C7, as stated, fails for a long line.  After \<^verbatim>\<open>Accept-Ranges: bytes\<close> has made the stream
  seekable, the line \<^verbatim>\<open>icy-metaint:\<close>, 60 spaces, \<^verbatim>\<open>8192\<close> has its value end at byte 76:
  \<^verbatim>\<open>end - header\<close> is not below \<^verbatim>\<open>sizeof(buffer)\<close>, the callback returns before it reads the
  value, and the stream is still seekable, with its parser not active.
\<close>

theorem padded_icy_metaint_counterexample:
  "header_lines [(accept_ranges_line, 1, 22), (padded_metaint_line, 1, 78)] live_stream
     = Inr (live_stream\<lparr>seekable := True\<rparr>)
   \<and> seekable (live_stream\<lparr>seekable := True\<rparr>)
   \<and> \<not> IsDefined (icy (live_stream\<lparr>seekable := True\<rparr>))"
  by (simp add: accept_ranges_first padded_metaint_second del: One_nat_def)
     (simp add: stream_defs IsDefined_def)

text \<open>
  C7, amended.  Let the header callback process any sequence of header lines, on a stream
  that is not seekable if its ICY parser is active (as a stream that has just been opened
  is).  Then, afterwards, the stream is not seekable if its ICY parser is active, and a
  parser that was active before is still active.  A line \<^verbatim>\<open>icy-metaint: K\<close> (its name in
  any case, white space around the decimal digits of \<open>K\<close>) with \<open>K > 0\<close> whose value ends
  within the first 63 bytes of the line leaves the parser active and the stream not
  seekable; it starts the parser with stride \<open>K\<close> if the parser was not active and \<open>K\<close> fits
  64 bits; and no later line, \<^verbatim>\<open>Accept-Ranges\<close> or other, makes the stream seekable again.
\<close>

theorem icy_excludes_seekable:
  "(header_lines hs c = Inr c' \<longrightarrow> (IsDefined (icy c) \<longrightarrow> \<not> seekable c) \<longrightarrow>
      (IsDefined (icy c') \<longrightarrow> \<not> seekable c') \<and> (IsDefined (icy c) \<longrightarrow> IsDefined (icy c')))
   \<and> (map g_ascii_tolower name = ''icy-metaint'' \<longrightarrow> list_all g_ascii_isspace pad \<longrightarrow>
      digits \<noteq> [] \<longrightarrow> list_all is_digit digits \<longrightarrow> 0 < decimal_value digits \<longrightarrow>
      list_all g_ascii_isspace trail \<longrightarrow>
      length (name @ [CHR '':''] @ pad @ digits) < 64 \<longrightarrow>
      size0 * nmemb = length (header_line name pad digits trail) \<longrightarrow>
      (IsDefined (icy d) \<longrightarrow> \<not> seekable d) \<longrightarrow>
      (\<exists>d1. input_curl_headerfunction (header_line name pad digits trail) size0 nmemb d = Inr d1
          \<and> IsDefined (icy d1) \<and> \<not> seekable d1
          \<and> (\<not> IsDefined (icy d) \<longrightarrow> decimal_value digits < 2 ^ 64 \<longrightarrow>
                stride (icy d1) = decimal_value digits)
          \<and> (\<forall>hs' d2. header_lines hs' d1 = Inr d2 \<longrightarrow> IsDefined (icy d2) \<and> \<not> seekable d2)))"
proof (intro conjI impI)
  assume "header_lines hs c = Inr c'" and "IsDefined (icy c) \<longrightarrow> \<not> seekable c"
  then have r: "(IsDefined (icy c') \<longrightarrow> \<not> seekable c') \<and> (IsDefined (icy c) \<longrightarrow> IsDefined (icy c'))"
    by (rule header_lines_icy)
  from r show "\<not> seekable c'" if "IsDefined (icy c')" using that by simp
  from r show "IsDefined (icy c')" if "IsDefined (icy c)" using that by simp
next
  assume name: "map g_ascii_tolower name = ''icy-metaint''"
    and pad: "list_all g_ascii_isspace pad"
    and digits: "digits \<noteq> []" "list_all is_digit digits" "0 < decimal_value digits"
    and trail: "list_all g_ascii_isspace trail"
    and short: "length (name @ [CHR '':''] @ pad @ digits) < 64"
    and sz: "size0 * nmemb = length (header_line name pad digits trail)"
    and inv: "IsDefined (icy d) \<longrightarrow> \<not> seekable d"
  let ?d1 = "if IsDefined (icy d) then d
             else d\<lparr>icy := Start (icy d) (unat (g_ascii_strtoull digits)), seekable := False\<rparr>"
  from icy_metaint_starts [OF name pad digits trail short sz]
  have call: "input_curl_headerfunction (header_line name pad digits trail) size0 nmemb d = Inr ?d1" .
  from strtoull_positive [OF digits]
  have pos: "0 < unat (g_ascii_strtoull digits)"
    and val: "decimal_value digits < 2 ^ 64 \<longrightarrow> unat (g_ascii_strtoull digits) = decimal_value digits"
    by simp_all
  from pos inv have on: "IsDefined (icy ?d1)" and ns: "\<not> seekable ?d1"
    by (simp_all add: IsDefined_def Start_def)
  from val have st: "\<not> IsDefined (icy d) \<longrightarrow> decimal_value digits < 2 ^ 64 \<longrightarrow>
                       stride (icy ?d1) = decimal_value digits"
    by (simp add: Start_def)
  have later: "\<forall>hs' d2. header_lines hs' ?d1 = Inr d2 \<longrightarrow> IsDefined (icy d2) \<and> \<not> seekable d2"
  proof (intro allI impI)
    fix hs' d2
    assume "header_lines hs' ?d1 = Inr d2"
    from header_lines_icy [OF this] on ns show "IsDefined (icy d2) \<and> \<not> seekable d2"
      by blast
  qed
  from call on ns st later
  show "\<exists>d1. input_curl_headerfunction (header_line name pad digits trail) size0 nmemb d = Inr d1
          \<and> IsDefined (icy d1) \<and> \<not> seekable d1
          \<and> (\<not> IsDefined (icy d) \<longrightarrow> decimal_value digits < 2 ^ 64 \<longrightarrow>
                stride (icy d1) = decimal_value digits)
          \<and> (\<forall>hs' d2. header_lines hs' d1 = Inr d2 \<longrightarrow> IsDefined (icy d2) \<and> \<not> seekable d2)"
    by blast
qed

lemma icy_metaint_second:
  "input_curl_headerfunction icy_metaint_line 1 19 (live_stream\<lparr>seekable := True\<rparr>)
     = Inr (live_stream\<lparr>seekable := False, icy := Start IcyMetaDataParser_new 8192\<rparr>)"
  by (simp add: header_defs stream_defs icy_defs icy_metaint_line_def)

lemma accept_ranges_third:
  "input_curl_headerfunction accept_ranges_line 1 22
       (live_stream\<lparr>seekable := False, icy := Start IcyMetaDataParser_new 8192\<rparr>)
     = Inr (live_stream\<lparr>seekable := False, icy := Start IcyMetaDataParser_new 8192\<rparr>)"
  by (simp add: header_defs stream_defs icy_defs accept_ranges_line_def)

lemma three_header_lines:
  "header_lines [(accept_ranges_line, 1, 22), (icy_metaint_line, 1, 19),
                 (accept_ranges_line, 1, 22)] live_stream
     = Inr (live_stream\<lparr>seekable := False, icy := Start IcyMetaDataParser_new 8192\<rparr>)"
  by (simp add: accept_ranges_first icy_metaint_second accept_ranges_third del: One_nat_def)

lemma one_more_accept_ranges:
  "header_lines [(accept_ranges_line, 1, 22)]
       (live_stream\<lparr>seekable := False, icy := Start IcyMetaDataParser_new 8192\<rparr>)
     = Inr (live_stream\<lparr>seekable := False, icy := Start IcyMetaDataParser_new 8192\<rparr>)"
  by (simp add: accept_ranges_third del: One_nat_def)

lemma icy_metaint_line_shape:
  "header_line ''icy-metaint'' '' '' ''8192'' [CHR 0x0D, CHR 0x0A] = icy_metaint_line
   \<and> map g_ascii_tolower ''icy-metaint'' = ''icy-metaint''
   \<and> list_all g_ascii_isspace '' '' \<and> ''8192'' \<noteq> [] \<and> list_all is_digit ''8192''
   \<and> decimal_value ''8192'' = 8192 \<and> list_all g_ascii_isspace [CHR 0x0D, CHR 0x0A]
   \<and> length (''icy-metaint'' @ [CHR '':''] @ '' '' @ ''8192'') < 64
   \<and> 1 * 19 = length (header_line ''icy-metaint'' '' '' ''8192'' [CHR 0x0D, CHR 0x0A])"
  by (simp add: header_line_def icy_metaint_line_def g_ascii_tolower_def g_ascii_isspace_def
        is_digit_def decimal_value_def digit_value_def)

theorem icy_excludes_seekable_witness:
  "IsDefined (icy (live_stream\<lparr>seekable := False, icy := Start IcyMetaDataParser_new 8192\<rparr>))
   \<and> \<not> seekable (live_stream\<lparr>seekable := False, icy := Start IcyMetaDataParser_new 8192\<rparr>)
   \<and> stride (icy (live_stream\<lparr>seekable := False, icy := Start IcyMetaDataParser_new 8192\<rparr>))
       = 8192"
proof -
  let ?on = "live_stream\<lparr>seekable := False, icy := Start IcyMetaDataParser_new 8192\<rparr>"
  have start: "IsDefined (icy live_stream) \<longrightarrow> \<not> seekable live_stream"
    by (simp add: stream_defs IsDefined_def)
  have off: "\<not> IsDefined (icy (live_stream\<lparr>seekable := True\<rparr>))"
    by (simp add: stream_defs IsDefined_def)
  have active: "IsDefined (icy ?on)"
    by (simp add: IsDefined_def Start_def)
  note shape = icy_metaint_line_shape
  have fits: "(8192::nat) < 2 ^ 64" by simp
  from icy_excludes_seekable
         [of "[(accept_ranges_line, 1, 22), (icy_metaint_line, 1, 19), (accept_ranges_line, 1, 22)]"
             live_stream ?on "''icy-metaint''" "'' ''" "''8192''" "[CHR 0x0D, CHR 0x0A]" 1 19
             "live_stream\<lparr>seekable := True\<rparr>"]
       three_header_lines start active
  have first: "\<not> seekable ?on" by blast
  from icy_excludes_seekable
         [of "[]" live_stream live_stream "''icy-metaint''" "'' ''" "''8192''"
             "[CHR 0x0D, CHR 0x0A]" 1 19 "live_stream\<lparr>seekable := True\<rparr>"]
       shape off fits
  obtain d1 where
    d1: "input_curl_headerfunction icy_metaint_line 1 19 (live_stream\<lparr>seekable := True\<rparr>) = Inr d1"
    and st: "stride (icy d1) = 8192"
    and later: "\<forall>hs' d2. header_lines hs' d1 = Inr d2 \<longrightarrow> IsDefined (icy d2) \<and> \<not> seekable d2"
    by (auto simp del: One_nat_def)
  from d1 icy_metaint_second have "d1 = ?on" by simp
  with st later one_more_accept_ranges first show ?thesis by blast
qed

text \<open>
  C10.  For every header line, the stores into \<^verbatim>\<open>name[64]\<close> and \<^verbatim>\<open>buffer[64]\<close> stay inside
  the arrays: the callback never reaches a store outside them.  A line without a colon,
  or with its colon at position 64 or later, is ignored before anything is copied.  The
  value of a line with a colon begins at or before its end, so that \<^verbatim>\<open>end - header < 64\<close>
  implies \<^verbatim>\<open>end - value < 64\<close>; and when \<^verbatim>\<open>end - header\<close> is 64 or more, the value is not
  copied: neither the size nor the ICY parser of the stream changes.
\<close>

theorem header_copies_in_bounds:
  "(\<exists>c'. input_curl_headerfunction ptr size0 nmemb c = Inr c')
   \<and> (memchr (take (size0 * nmemb) ptr) CHR '':'' = None \<longrightarrow>
        input_curl_headerfunction ptr size0 nmemb c = Inr c)
   \<and> (\<forall>colon. memchr (take (size0 * nmemb) ptr) CHR '':'' = Some colon \<longrightarrow>
        (let header = take (size0 * nmemb) ptr;
             value = skip_leading_space header (colon + 1) (size0 * nmemb);
             end = strip_trailing_space header value (size0 * nmemb)
         in (64 \<le> colon \<longrightarrow> input_curl_headerfunction ptr size0 nmemb c = Inr c)
            \<and> (end < 64 \<longrightarrow> value \<le> end \<and> size_t_diff end value < 64)
            \<and> (64 \<le> end \<longrightarrow>
                 (\<forall>c'. input_curl_headerfunction ptr size0 nmemb c = Inr c' \<longrightarrow>
                         base_size c' = base_size c \<and> icy c' = icy c))))"
proof (intro conjI allI impI)
  show "\<exists>c'. input_curl_headerfunction ptr size0 nmemb c = Inr c'"
    by (rule headerfunction_in_bounds)
next
  assume "memchr (take (size0 * nmemb) ptr) CHR '':'' = None"
  then show "input_curl_headerfunction ptr size0 nmemb c = Inr c"
    by (simp add: input_curl_headerfunction_def)
next
  fix colon
  assume colon: "memchr (take (size0 * nmemb) ptr) CHR '':'' = Some colon"
  let ?header = "take (size0 * nmemb) ptr"
  let ?val = "skip_leading_space ?header (colon + 1) (size0 * nmemb)"
  let ?fin = "strip_trailing_space ?header ?val (size0 * nmemb)"
  from value_end [OF colon]
  have ve: "?val \<le> ?fin" and d: "size_t_diff ?fin ?val = ?fin - ?val"
    by simp_all
  show "let header = take (size0 * nmemb) ptr;
            value = skip_leading_space header (colon + 1) (size0 * nmemb);
            end = strip_trailing_space header value (size0 * nmemb)
        in (64 \<le> colon \<longrightarrow> input_curl_headerfunction ptr size0 nmemb c = Inr c)
           \<and> (end < 64 \<longrightarrow> value \<le> end \<and> size_t_diff end value < 64)
           \<and> (64 \<le> end \<longrightarrow>
                (\<forall>c'. input_curl_headerfunction ptr size0 nmemb c = Inr c' \<longrightarrow>
                        base_size c' = base_size c \<and> icy c' = icy c))"
    unfolding Let_def
  proof (intro conjI allI impI)
    assume "64 \<le> colon"
    with colon show "input_curl_headerfunction ptr size0 nmemb c = Inr c"
      by (simp add: input_curl_headerfunction_def)
  next
    show "?val \<le> ?fin"
      using ve by simp
  next
    assume "?fin < 64"
    then show "size_t_diff ?fin ?val < 64"
      using d by simp
  next
    fix c'
    assume "64 \<le> ?fin" and "input_curl_headerfunction ptr size0 nmemb c = Inr c'"
    with colon show "base_size c' = base_size c" and "icy c' = icy c"
      by (auto simp: input_curl_headerfunction_def Let_def split: if_splits sum.splits)
  qed
qed

lemma status_line_colon: "memchr (take (1 * 17) status_line) CHR '':'' = None"
  by (simp add: memchr_def status_line_def)

lemma content_length_colon: "memchr (take (1 * 20) content_length_line) CHR '':'' = Some 14"
  by (simp add: memchr_def content_length_line_def)

lemma content_length_value:
  "skip_leading_space (take (1 * 20) content_length_line) (14 + 1) (1 * 20) = 16
   \<and> strip_trailing_space (take (1 * 20) content_length_line) 16 (1 * 20) = 18"
  by (simp add: content_length_line_def skip_leading_space.simps strip_trailing_space.simps
        g_ascii_isspace_def)

lemma padded_length_colon: "memchr (take (1 * 79) padded_length_line) CHR '':'' = Some 14"
  by (simp add: memchr_def padded_length_line_def)

lemma padded_length_value:
  "skip_leading_space (take (1 * 79) padded_length_line) (14 + 1) (1 * 79) = 75
   \<and> strip_trailing_space (take (1 * 79) padded_length_line) 75 (1 * 79) = 77"
  by (simp add: padded_length_line_def skip_leading_space.simps strip_trailing_space.simps
        g_ascii_isspace_def)

theorem header_copies_in_bounds_witness:
  "input_curl_headerfunction status_line 1 17 live_stream = Inr live_stream
   \<and> (16::nat) \<le> 18 \<and> size_t_diff 18 16 < 64
   \<and> (\<exists>c'. input_curl_headerfunction padded_length_line 1 79 live_stream = Inr c'
             \<and> base_size c' = base_size live_stream \<and> icy c' = icy live_stream)"
proof -
  from header_copies_in_bounds [of status_line 1 17 live_stream] status_line_colon
  have a: "input_curl_headerfunction status_line 1 17 live_stream = Inr live_stream"
    by blast
  from header_copies_in_bounds [of content_length_line 1 20 live_stream] content_length_colon
  have "let header = take (1 * 20) content_length_line;
            value = skip_leading_space header (14 + 1) (1 * 20);
            end = strip_trailing_space header value (1 * 20)
        in end < 64 \<longrightarrow> value \<le> end \<and> size_t_diff end value < 64"
    by (simp add: Let_def del: One_nat_def)
  with content_length_value have b: "(16::nat) \<le> 18 \<and> size_t_diff 18 16 < 64"
    by (simp add: Let_def del: One_nat_def)
  from header_copies_in_bounds [of padded_length_line 1 79 live_stream] padded_length_colon
  have "(\<exists>c'. input_curl_headerfunction padded_length_line 1 79 live_stream = Inr c')
        \<and> (let header = take (1 * 79) padded_length_line;
                value = skip_leading_space header (14 + 1) (1 * 79);
                end = strip_trailing_space header value (1 * 79)
            in 64 \<le> end \<longrightarrow>
                 (\<forall>c'. input_curl_headerfunction padded_length_line 1 79 live_stream = Inr c' \<longrightarrow>
                         base_size c' = base_size live_stream \<and> icy c' = icy live_stream))"
    by (simp add: Let_def del: One_nat_def)
  with padded_length_value
  have c: "\<exists>c'. input_curl_headerfunction padded_length_line 1 79 live_stream = Inr c'
             \<and> base_size c' = base_size live_stream \<and> icy c' = icy live_stream"
    by (auto simp: Let_def simp del: One_nat_def)
  from a b c show ?thesis by blast
qed

subsection \<open>The queue never grows but by a write\<close>

lemma Consume_size: "Consume b len = Inr (r, b') \<Longrightarrow> size_b b' = size_b b"
  by (auto simp: Consume_def Let_def split: if_splits)

lemma Read_size: "Read b len = Inr (r, bytes, b') \<Longrightarrow> size_b b' = size_b b"
  by (auto simp: Read_def split: if_splits sum.splits dest: Consume_size)

lemma rfb_data_size:
  "read_from_buffer_data (i, b, d, l, n) = Inr s \<Longrightarrow>
     (case s of Break (n', d', i', fr) \<Rightarrow> same_size b fr
              | Continue (i', b', d', l', n') \<Rightarrow> size_b b' = size_b b)"
  by (auto simp: read_from_buffer_data_def same_size_def split: prod.splits if_splits sum.splits dest: Read_size)

lemma rfb_meta_size:
  "read_from_buffer_meta (i, b, d, l, n) = Inr s \<Longrightarrow>
     (case s of Break (n', d', i', fr) \<Rightarrow> same_size b fr
              | Continue (i', b', d', l', n') \<Rightarrow> size_b b' = size_b b)"
  by (auto simp: read_from_buffer_meta_def same_size_def split: prod.splits if_splits sum.splits dest: Consume_size)

lemma rfb_loop_size:
  "read_from_buffer_loop st = Some y \<Longrightarrow>
     (\<forall>n' d' i' fr. y = Inr (n', d', i', fr) \<longrightarrow> same_size (fst (snd st)) fr)"
proof (induction rule: read_from_buffer_loop.raw_induct [rotated, consumes 1, case_names step])
  case (step loop st y)
  obtain i b d l n where st: "st = (i, b, d, l, n)" by (cases st) auto
  show ?case
  proof (cases "read_from_buffer_data st")
    case (Inl e)
    with step(2) show ?thesis by auto
  next
    case (Inr s1)
    note data = this
    show ?thesis
    proof (cases s1)
      case (Break r)
      with data step(2) rfb_data_size [of i b d l n s1] st show ?thesis
        by (auto split: prod.splits)
    next
      case (Continue st1)
      obtain i1 b1 d1 l1 n1 where st1: "st1 = (i1, b1, d1, l1, n1)" by (cases st1) auto
      from data rfb_data_size [of i b d l n s1] st Continue st1 have b1: "size_b b1 = size_b b"
        by simp
      show ?thesis
      proof (cases "read_from_buffer_meta st1")
        case (Inl e)
        with data Continue step(2) show ?thesis by auto
      next
        case (Inr s2)
        note meta = this
        show ?thesis
        proof (cases s2)
          case (Break r)
          with meta data Continue step(2) rfb_meta_size [of i1 b1 d1 l1 n1 s2] st st1 b1 show ?thesis
            by (auto simp: same_size_def split: prod.splits option.splits)
        next
          case (Continue st2)
          obtain i2 b2 d2 l2 n2 where st2: "st2 = (i2, b2, d2, l2, n2)" by (cases st2) auto
          from meta rfb_meta_size [of i1 b1 d1 l1 n1 s2] st1 Continue st2 have b2: "size_b b2 = size_b b1"
            by simp
          from meta data Continue \<open>s1 = Continue st1\<close> step(2) have "loop st2 = Some y"
            by simp
          from step(1) [OF this] st2
          have IH: "\<forall>n' d' i' fr. y = Inr (n', d', i', fr) \<longrightarrow> same_size b2 fr"
            by simp
          have "same_size b fr" if "same_size b2 fr" for fr
            using that b1 b2 by (cases fr) (simp_all add: same_size_def)
          with IH st show ?thesis by auto
        qed
      qed
    qed
  qed
qed

lemma read_from_buffer_size:
  assumes "read_from_buffer i bufs len = Some (Inr (n, d, i', bufs'))"
  shows "queue_size bufs' \<le> queue_size bufs"
proof (cases bufs)
  case Nil
  with assms show ?thesis by (simp add: read_from_buffer_def)
next
  case (Cons b rest)
  let ?len = "if len > Available b then Available b else len"
  from assms Cons obtain fr where
    loop: "read_from_buffer_loop (i, b, [], ?len, 0) = Some (Inr (n, d, i', fr))"
    and bufs': "bufs' = (case fr of None \<Rightarrow> rest | Some b' \<Rightarrow> b' # rest)"
    by (auto simp: read_from_buffer_def Let_def split: option.splits sum.splits)
  from rfb_loop_size [OF loop] have "same_size b fr" by simp
  with bufs' Cons show ?thesis
    by (simp add: same_size_def queue_size_def split: option.splits)
qed

lemma send_buffer_contents_size:
  "send_buffer_contents i bufs d n sz = Some y \<Longrightarrow>
     (\<forall>i' bufs' d' n' sz'. y = Inr (i', bufs', d', n', sz') \<longrightarrow> queue_size bufs' \<le> queue_size bufs)"
proof (induction rule: send_buffer_contents.raw_induct [rotated, consumes 1, case_names step])
  case (step send i bufs d n sz y)
  show ?case
  proof (cases "sz > 0 \<and> bufs \<noteq> []")
    case False
    with step(2) show ?thesis by auto
  next
    case True
    show ?thesis
    proof (cases "read_from_buffer i bufs sz")
      case None
      with True step(2) show ?thesis by simp
    next
      case (Some r)
      show ?thesis
      proof (cases r)
        case (Inl e)
        with Some True step(2) show ?thesis by auto
      next
        case (Inr t)
        obtain copy bytes i1 bufs1 where t: "t = (copy, bytes, i1, bufs1)" by (cases t) auto
        with Some Inr True step(2) have "send i1 bufs1 (d @ bytes) (n + copy) (sz - copy) = Some y"
          by simp
        from step(1) [OF this] read_from_buffer_size [of i bufs sz copy bytes i1 bufs1] Some Inr t
        show ?thesis by fastforce
      qed
    qed
  qed
qed

lemma read_loop_size:
  "input_curl_read_loop c dest nbytes sz = Some y \<Longrightarrow>
   (\<forall>r c1. y = Inr (r, c1) \<longrightarrow> queue_size (buffers c1) \<le> queue_size (buffers c))"
proof (induction rule: input_curl_read_loop.raw_induct [rotated, consumes 1, case_names step])
  case (step loop c dest nbytes sz y)
  show ?case
  proof (cases "fill_buffer c")
    case (Pair w c1)
    then have c1: "buffers c1 = buffers c" and i1: "icy c1 = icy c"
      by (auto simp: fill_buffer_def split: if_splits)
    show ?thesis
    proof (cases w)
      case Waiting
      with Pair step(2) c1 show ?thesis by auto
    next
      case (Done res)
      obtain success err where res: "res = (success, err)" by (cases res) auto
      show ?thesis
      proof (cases success)
        case False
        with Pair Done res step(2) c1 show ?thesis by auto
      next
        case True
        show ?thesis
        proof (cases "send_buffer_contents (icy c1) (buffers c1) dest nbytes sz")
          case None
          with Pair Done res True step(2) show ?thesis by simp
        next
          case (Some s)
          show ?thesis
          proof (cases s)
            case (Inl e)
            with Some Pair Done res True step(2) show ?thesis by auto
          next
            case (Inr t)
            obtain icy2 bufs2 dest2 nbytes2 sz2 where t: "t = (icy2, bufs2, dest2, nbytes2, sz2)"
              by (cases t) auto
            from send_buffer_contents_size [OF Some] Inr t c1
            have le: "queue_size bufs2 \<le> queue_size (buffers c)" by simp
            show ?thesis
            proof (cases "nbytes2 = 0")
              case True
              with Some Inr t Pair Done res \<open>success\<close> step(2)
              have "loop (c1\<lparr>icy := icy2, buffers := bufs2\<rparr>) dest2 nbytes2 sz2 = Some y"
                by simp
              from step(1) [OF this] le show ?thesis by fastforce
            next
              case False
              with Some Inr t Pair Done res \<open>success\<close> step(2) le show ?thesis by auto
            qed
          qed
        qed
      qed
    qed
  qed
qed

lemma copy_icy_tag_buffers: "buffers (copy_icy_tag c) = buffers c"
  by (simp add: copy_icy_tag_def split: prod.splits option.splits)

lemma read_size:
  assumes "input_curl_read c sz = Some (Inr (r, c', calls))"
  shows "queue_size (buffers c') \<le> queue_size (buffers c)"
  using assms read_loop_size [of c "[]" 0 sz]
  by (auto simp: input_curl_read_def Let_def input_curl_resume_def copy_icy_tag_buffers
        split: option.splits sum.splits prod.splits blocking.splits if_splits)

lemma seek_fast_forward_size:
  "seek_fast_forward target c = Inr c1 \<Longrightarrow> queue_size (buffers c1) \<le> queue_size (buffers c)"
proof (induction target c rule: seek_fast_forward.induct)
  case (1 target c)
  show ?case
  proof (cases "buffers c")
    case Nil
    with "1.prems" show ?thesis by (simp add: seek_fast_forward.simps)
  next
    case (Cons buffer rest)
    show ?thesis
    proof (cases "offset c <s target")
      case False
      with Cons "1.prems" show ?thesis by (simp add: seek_fast_forward.simps)
    next
      case True
      define len where "len = (if target - offset c <s word_of_nat (Available buffer)
                               then unat (target - offset c) else Available buffer)"
      from "1.prems" Cons True obtain nonempty buffer1 where
        cons: "Consume buffer len = Inr (nonempty, buffer1)" and
        rec: "seek_fast_forward target
                (c\<lparr>buffers := (if nonempty then buffer1 # rest else rest),
                  offset := offset c + word_of_nat len\<rparr>) = Inr c1"
        by (subst (asm) seek_fast_forward.simps) (auto simp: Let_def len_def split: sum.splits)
      from "1.IH" [OF Cons True len_def cons refl rec] Consume_size [OF cons] Cons
      show ?thesis by (simp add: queue_size_def split: if_splits)
    qed
  qed
qed

lemma easy_init_buffers: "buffers (snd (snd (input_curl_easy_init env c))) = buffers c"
  by (simp add: input_curl_easy_init_def Let_def)

lemma seek_size:
  assumes "input_curl_seek env c offset0 whence = Inr (r, c', calls)"
  shows "queue_size (buffers c') \<le> queue_size (buffers c)"
proof -
  from assms have body: "input_curl_seek_body env c offset0 whence = Inr (r, c', calls)"
    by (simp add: input_curl_seek_def split: if_splits)
  show ?thesis
  proof (cases "seek_target c offset0 whence")
    case None
    with body show ?thesis
      by (auto simp: input_curl_seek_body_def split: if_splits)
  next
    case (Some target)
    show ?thesis
    proof (cases "seek_fast_forward target c")
      case (Inl e)
      with body Some show ?thesis
        by (auto simp: input_curl_seek_body_def split: if_splits)
    next
      case (Inr c1)
      from seek_fast_forward_size [OF Inr] have le: "queue_size (buffers c1) \<le> queue_size (buffers c)" .
      have "buffers c' = buffers c \<or> buffers c' = buffers c1 \<or> buffers c' = []"
        using body Some Inr easy_init_buffers [of env "(input_curl_easy_free c1)\<lparr>buffers := [], offset := target\<rparr>"]
        by (auto simp: input_curl_seek_body_def Let_def input_curl_easy_free_indirect_def
              input_curl_seek_wait_def
              split: if_splits prod.splits sum.splits)
      with le show ?thesis by (auto simp: queue_size_def)
    qed
  qed
qed

lemma headerfunction_buffers:
  "input_curl_headerfunction ptr size0 nmemb c = Inr c' \<Longrightarrow> buffers c' = buffers c"
  by (auto simp: input_curl_headerfunction_def Let_def
        split: option.splits sum.splits if_splits)

lemma writefunction_size:
  "curl_total_buffer_size c < CURL_MAX_BUFFERED \<Longrightarrow>
     curl_total_buffer_size (fst (input_curl_writefunction ptr size0 nmemb c)) < CURL_MAX_BUFFERED"
  by (simp add: input_curl_writefunction_def Let_def total_queue_size queue_size_def
        CurlInputBuffer_new_def)

lemma handle_done_buffers:
  "input_curl_handle_done c result status = Inr c' \<Longrightarrow> buffers c' = buffers c"
  by (auto simp: input_curl_handle_done_def input_curl_request_done_def
        input_curl_easy_free_def Let_def split: if_splits)

lemma abort_buffers:
  "input_curl_abort_all_requests err c = Inr c' \<Longrightarrow> buffers c' = buffers c"
  by (auto simp: input_curl_abort_all_requests_def input_curl_easy_free_def split: if_splits)

lemma step_size:
  assumes "step e c = Some (k, c')" and "curl_total_buffer_size c < CURL_MAX_BUFFERED"
  shows "curl_total_buffer_size c' < CURL_MAX_BUFFERED"
proof (cases e)
  case (HeaderLine ptr size0 nmemb)
  with assms show ?thesis
    by (auto simp: total_queue_size split: if_splits sum.splits dest: headerfunction_buffers)
next
  case (WriteData ptr size0 nmemb)
  with assms show ?thesis
    by (auto split: if_splits simp: writefunction_size)
next
  case (TransferDone result status msg)
  with assms show ?thesis
    by (auto simp: total_queue_size split: if_splits sum.splits dest!: handle_done_buffers)
next
  case (AbortAll err)
  with assms show ?thesis
    by (auto simp: total_queue_size split: sum.splits dest: abort_buffers)
next
  case (ReadCall sz)
  with assms show ?thesis
    by (auto simp: total_queue_size split: option.splits sum.splits blocking.splits dest!: read_size)
next
  case (SeekCall env offset0 whence)
  with assms show ?thesis
    by (auto simp: total_queue_size split: sum.splits dest!: seek_size)
next
  case SeekWake
  with assms show ?thesis
    by (auto simp: total_queue_size input_curl_seek_wait_def split: if_splits)
next
  case CheckCall
  with assms show ?thesis
    by (auto simp: total_queue_size input_curl_check_def Let_def split: if_splits)
next
  case TagCall
  with assms show ?thesis
    by (auto simp: total_queue_size input_curl_tag_def)
qed

lemma run_size:
  "run evs (n, c) = Some (n', c') \<Longrightarrow> curl_total_buffer_size c < CURL_MAX_BUFFERED \<Longrightarrow>
     curl_total_buffer_size c' < CURL_MAX_BUFFERED"
proof (induction evs arbitrary: n c)
  case Nil
  then show ?case by simp
next
  case (Cons e evs)
  from Cons.prems(1) obtain k c1 where s: "step e c = Some (k, c1)"
    and r: "run evs (n + k, c1) = Some (n', c')"
    by (auto split: option.splits)
  from Cons.IH [OF r step_size [OF s Cons.prems(2)]] show ?case .
qed

lemma writefunction_adds:
  "curl_total_buffer_size (fst (input_curl_writefunction ptr size0 nmemb c))
     \<le> curl_total_buffer_size c + size0 * nmemb"
  by (simp add: input_curl_writefunction_def Let_def total_queue_size queue_size_def
        CurlInputBuffer_new_def)

text \<open>
  C3.  Start from a stream whose queue holds fewer than \<open>CURL_MAX_BUFFERED\<close> bytes, as the
  empty queue of a stream that has just been opened does.  After every run, that is every
  interleaving of header lines, writes and completions on the I/O thread with reads, seeks
  and the other calls of the consumer, the sizes of the chunks in the queue still sum to
  fewer than \<open>CURL_MAX_BUFFERED\<close> bytes; and with one more incoming write of
  \<open>size * nmemb\<close> bytes they sum to at most \<open>CURL_MAX_BUFFERED + size * nmemb\<close>.
\<close>

theorem buffered_bytes_bounded:
  assumes "curl_total_buffer_size c < CURL_MAX_BUFFERED"
    and "run evs (n, c) = Some (n', c')"
  shows "curl_total_buffer_size c' < CURL_MAX_BUFFERED
       \<and> curl_total_buffer_size (fst (input_curl_writefunction ptr size0 nmemb c'))
           \<le> CURL_MAX_BUFFERED + size0 * nmemb"
proof -
  from run_size [OF assms(2,1)] have "curl_total_buffer_size c' < CURL_MAX_BUFFERED" .
  with writefunction_adds [of ptr size0 nmemb c'] show ?thesis by simp
qed

lemma write_nearly_full_stream:
  "step (WriteData (replicate 16384 (CHR ''a'')) 1 16384) nearly_full_stream
     = Some (0, nearly_full_stream\<lparr>paused := True\<rparr>)"
  by (simp add: Let_def input_curl_writefunction_def curl_total_buffer_size_sum stream_defs
        CURL_MAX_BUFFERED_def sum_list_replicate)

lemma nearly_full_stream_size: "curl_total_buffer_size nearly_full_stream = 507904"
  by (simp add: curl_total_buffer_size_sum stream_defs sum_list_replicate)

theorem buffered_bytes_bounded_witness:
  "curl_total_buffer_size (nearly_full_stream\<lparr>paused := True\<rparr>) < CURL_MAX_BUFFERED
   \<and> curl_total_buffer_size
        (fst (input_curl_writefunction (replicate 16384 (CHR ''a'')) 1 16384
                (nearly_full_stream\<lparr>paused := True\<rparr>)))
       \<le> CURL_MAX_BUFFERED + 1 * 16384"
proof -
  have start: "curl_total_buffer_size nearly_full_stream < CURL_MAX_BUFFERED"
    by (simp add: nearly_full_stream_size CURL_MAX_BUFFERED_def)
  have "run [WriteData (replicate 16384 (CHR ''a'')) 1 16384] (0, nearly_full_stream)
          = Some (0, nearly_full_stream\<lparr>paused := True\<rparr>)"
    by (simp add: write_nearly_full_stream del: step.simps One_nat_def)
  from buffered_bytes_bounded [OF start this] show ?thesis .
qed

subsection \<open>End of file\<close>

lemma read_at_eof:
  assumes "input_curl_eof c" and "input_curl_read c sz = Some (Inr (r, c', calls))"
  shows "input_curl_eof c'"
  using assms
  by (subst (asm) input_curl_read_def, subst (asm) input_curl_read_loop.simps)
     (auto simp: input_curl_eof_def fill_buffer_def split: if_splits)

lemma seek_at_eof:
  assumes "input_curl_eof c" and "input_curl_seek env c offset0 whence = Inr (r, c', calls)"
  shows "input_curl_eof c' \<or> easy c' \<noteq> None"
proof -
  from assms(1) have e: "easy c = None" and b: "buffers c = []"
    by (simp_all add: input_curl_eof_def)
  from b have ff: "\<And>target. seek_fast_forward target c = Inr c"
    by (simp add: seek_fast_forward.simps)
  from assms(2) have body: "input_curl_seek_body env c offset0 whence = Inr (r, c', calls)"
    by (simp add: input_curl_seek_def split: if_splits)
  have "buffers c' = []"
    using body b ff
    by (auto simp: input_curl_seek_body_def Let_def input_curl_easy_free_indirect_def
          input_curl_easy_free_def input_curl_seek_wait_def input_curl_easy_init_def
          split: if_splits prod.splits sum.splits option.splits)
  then show ?thesis by (auto simp: input_curl_eof_def)
qed

lemma step_eof:
  assumes "input_curl_eof c" and "step e c = Some (k, c')"
  shows "input_curl_eof c' \<or> (is_seek e \<and> easy c' \<noteq> None)"
proof (cases e)
  case (HeaderLine ptr size0 nmemb)
  with assms show ?thesis by (auto simp: input_curl_eof_def)
next
  case (WriteData ptr size0 nmemb)
  with assms show ?thesis by (auto simp: input_curl_eof_def)
next
  case (TransferDone result status msg)
  with assms show ?thesis by (auto simp: input_curl_eof_def)
next
  case (AbortAll err)
  with assms show ?thesis
    by (auto simp: input_curl_eof_def input_curl_abort_all_requests_def)
next
  case (ReadCall sz)
  with assms show ?thesis
    by (auto split: option.splits sum.splits blocking.splits dest: read_at_eof)
next
  case (SeekCall env offset0 whence)
  with assms show ?thesis
    by (auto simp: is_seek_def split: sum.splits dest: seek_at_eof)
next
  case SeekWake
  with assms show ?thesis
    by (auto simp: input_curl_eof_def input_curl_seek_wait_def split: if_splits)
next
  case CheckCall
  with assms show ?thesis
    by (auto simp: input_curl_eof_def input_curl_check_def Let_def split: if_splits)
next
  case TagCall
  with assms show ?thesis
    by (auto simp: input_curl_eof_def input_curl_tag_def)
qed

lemma run_eof:
  "run evs (n, c) = Some (n', c') \<Longrightarrow> input_curl_eof c \<Longrightarrow> \<forall>e \<in> set evs. \<not> is_seek e \<Longrightarrow>
     input_curl_eof c'"
proof (induction evs arbitrary: n c)
  case Nil
  then show ?case by simp
next
  case (Cons e evs)
  from Cons.prems(1) obtain k c1 where s: "step e c = Some (k, c1)"
    and r: "run evs (n + k, c1) = Some (n', c')"
    by (auto split: option.splits)
  from step_eof [OF Cons.prems(2) s] Cons.prems(3) have "input_curl_eof c1" by simp
  from Cons.IH [OF r this] Cons.prems(3) show ?case by simp
qed

lemma seek_finished_stream:
  "input_curl_seek plain_env finished_stream 5 SEEK_SET =
     Inr (Waiting,
          finished_stream\<lparr>offset := 5, ready := False, range_hdr := Some ''5-'',
            request_headers := [''Icy-Metadata: 1''],
            easy := Some (plain_handle @ [(CURLOPT_RANGE, Str ''5-'')])\<rparr>,
          [input_curl_easy_free_callback, input_curl_easy_add_callback])"
  by (simp add: seek_defs stream_defs printf_lld_5)

text \<open>
  C4, as stated, fails for a seek.  The finished stream is at its end: its handle is
  cleared and its queue is empty.  The call \<^verbatim>\<open>seek(5, SEEK_SET)\<close> sets up a new transfer,
  and \<^verbatim>\<open>input_curl_eof\<close> is false afterwards.
\<close>

theorem eof_after_seek_counterexample:
  "input_curl_eof finished_stream
   \<and> step (SeekCall plain_env 5 SEEK_SET) finished_stream
       = Some (0, finished_stream\<lparr>offset := 5, ready := False, range_hdr := Some ''5-'',
                    request_headers := [''Icy-Metadata: 1''],
                    easy := Some (plain_handle @ [(CURLOPT_RANGE, Str ''5-'')])\<rparr>)
   \<and> \<not> input_curl_eof
          (finished_stream\<lparr>offset := 5, ready := False, range_hdr := Some ''5-'',
             request_headers := [''Icy-Metadata: 1''],
             easy := Some (plain_handle @ [(CURLOPT_RANGE, Str ''5-'')])\<rparr>)"
  by (simp add: seek_finished_stream) (simp add: input_curl_eof_def stream_defs)

text \<open>
  C4, amended.  Once \<^verbatim>\<open>input_curl_eof\<close> is true, it stays true through every step that
  is not a seek which sets up a new handle: reads, checks, tag requests, the callbacks and
  completions of the I/O thread, and seeks that return without a new transfer all leave
  the handle cleared and the queue empty.  In particular it is true after every run
  without a seek.
\<close>

theorem eof_persists:
  "(input_curl_eof c \<longrightarrow> step e c = Some (k, c') \<longrightarrow>
      input_curl_eof c' \<or> (is_seek e \<and> easy c' \<noteq> None))
   \<and> (input_curl_eof d \<longrightarrow> (\<forall>e \<in> set evs. \<not> is_seek e) \<longrightarrow>
        run evs (n, d) = Some (n', d') \<longrightarrow> input_curl_eof d')"
  using step_eof [of c e k c'] run_eof [of evs n d n' d'] by blast

lemma read_failed_stream: "step (ReadCall 4) failed_stream = Some (0, finished_stream)"
  by (simp add: failed_stream_def stream_defs read_defs)

lemma check_finished_stream: "step CheckCall finished_stream = Some (0, finished_stream)"
  by (simp add: stream_defs input_curl_check_def)

theorem eof_persists_witness:
  "input_curl_eof failed_stream \<and> input_curl_eof finished_stream"
proof -
  have eof: "input_curl_eof failed_stream"
    by (simp add: input_curl_eof_def failed_stream_def stream_defs)
  have no_seek: "\<forall>e \<in> set [ReadCall 4, CheckCall]. \<not> is_seek e"
    by (simp add: is_seek_def)
  have run: "run [ReadCall 4, CheckCall] (0, failed_stream) = Some (0, finished_stream)"
    by (simp add: read_failed_stream check_finished_stream del: step.simps)
  from eof_persists [of failed_stream "ReadCall 4" 0 finished_stream failed_stream
                        "[ReadCall 4, CheckCall]" 0 0 finished_stream]
       eof no_seek run read_failed_stream
  show ?thesis by blast
qed

end
